theory Spec2Isabelle
  imports Complex_Main
begin

section \<open>WebQSP subgraph retrieval: data model\<close>

text \<open>
  The development embeds \<^verbatim>\<open>torch_geometric/datasets/web_qsp_dataset.py\<close>.

  Tensor entries (similarities, prizes, costs) are rationals: comparisons and the
  arithmetic of the prize formulas are exact, the rounding of float32 is not modelled.
  Node ids and edge indices are natural numbers. A feature row is a value of an
  arbitrary type \<open>'v\<close>; the cosine-similarity module, the top-k selection of torch and
  the PCST solver are external and enter every function as parameters.

  Every exception the Python can raise on the modelled paths is a value \<open>Inl e\<close> of the
  result type \<open>error + 'a\<close>.
\<close>

datatype error = ImportError string | IndexError | KeyError | RuntimeError

subsection \<open>Constructor: the check of the optional imports\<close>

fun join :: "string \<Rightarrow> string list \<Rightarrow> string" where
  "join sep [] = []"
| "join sep [s] = s"
| "join sep (s # t # ts) = s @ sep @ join sep (t # ts)"

text \<open>The f-string of the error message; the back quote is character \<open>0x60\<close>.\<close>

definition error_out :: "string \<Rightarrow> string" where
  "error_out missing_str =
     CHR 0x60 # ''pip install '' @ missing_str @ CHR 0x60 # '' to use this dataset.''"

text \<open>
  \<open>WebQSPDataset.__init__\<close>: the four flags are the module-level \<open>WITH_*\<close> constants set
  by the guarded imports; \<open>super_init\<close> is everything the constructor does after the
  check (the fields, \<open>InMemoryDataset.__init__\<close> with download and processing, the load).
\<close>

definition WebQSPDataset_init ::
  "bool \<Rightarrow> bool \<Rightarrow> bool \<Rightarrow> bool \<Rightarrow> (unit \<Rightarrow> error + 'd) \<Rightarrow> error + 'd" where
  "WebQSPDataset_init WITH_PCST WITH_TRANSFORMERS WITH_DATASETS WITH_PANDAS super_init =
     (let s0 = (False, []);
          s1 = (if \<not> WITH_PCST then (True, snd s0 @ [''pcst_fast'']) else s0);
          s2 = (if \<not> WITH_TRANSFORMERS then (True, snd s1 @ [''transformers'']) else s1);
          s3 = (if \<not> WITH_DATASETS then (True, snd s2 @ [''datasets'']) else s2);
          s4 = (if \<not> WITH_PANDAS then (True, snd s3 @ [''pandas'']) else s3);
          missing_imports = fst s4;
          missing_str_list = snd s4
      in if missing_imports
         then Inl (ImportError (error_out (join '' '' missing_str_list)))
         else super_init ())"

subsection \<open>Virtual-node reduction\<close>

text \<open>
  The seven accumulators of the loop over the edges; the two dicts are maps.
\<close>

record reduction =
  cost_list :: "rat list"
  edge_list :: "(nat \<times> nat) list"
  virtual_n_prizes :: "rat list"
  virtual_edges :: "(nat \<times> nat) list"
  virtual_costs :: "rat list"
  mapping_n :: "nat \<rightharpoonup> nat"
  mapping_e :: "nat \<rightharpoonup> nat"

definition reduction_init :: reduction where
  "reduction_init =
     \<lparr>cost_list = [], edge_list = [], virtual_n_prizes = [], virtual_edges = [],
      virtual_costs = [], mapping_n = Map.empty, mapping_e = Map.empty\<rparr>"

text \<open>
  One iteration of \<^verbatim>\<open>for i, (src, dst) in enumerate(e_idx.T.numpy())\<close>. Reading
  \<open>e_prizes[i]\<close> beyond the end of the prize vector raises \<open>IndexError\<close>.
\<close>

definition reduce_step ::
  "nat \<Rightarrow> rat \<Rightarrow> rat list \<Rightarrow> reduction \<Rightarrow> nat \<times> (nat \<times> nat) \<Rightarrow> error + reduction" where
  "reduce_step num_nodes cost_e e_prizes s ie =
     (case ie of (i, (src, dst)) \<Rightarrow>
        if length e_prizes \<le> i then Inl IndexError
        else
          let prize_e = e_prizes ! i in
          if prize_e \<le> cost_e then
            Inr (s\<lparr>mapping_e := (mapping_e s)(length (edge_list s) \<mapsto> i),
                   edge_list := edge_list s @ [(src, dst)],
                   cost_list := cost_list s @ [cost_e - prize_e]\<rparr>)
          else
            let virtual_node_id = num_nodes + length (virtual_n_prizes s) in
            Inr (s\<lparr>mapping_n := (mapping_n s)(virtual_node_id \<mapsto> i),
                   virtual_edges :=
                     virtual_edges s @ [(src, virtual_node_id), (virtual_node_id, dst)],
                   virtual_costs := virtual_costs s @ [0, 0],
                   virtual_n_prizes := virtual_n_prizes s @ [prize_e - cost_e]\<rparr>))"

fun reduce_loop ::
  "nat \<Rightarrow> rat \<Rightarrow> rat list \<Rightarrow> reduction \<Rightarrow> (nat \<times> (nat \<times> nat)) list \<Rightarrow> error + reduction" where
  "reduce_loop num_nodes cost_e e_prizes s [] = Inr s"
| "reduce_loop num_nodes cost_e e_prizes s (ie # rest) =
     (case reduce_step num_nodes cost_e e_prizes s ie of
        Inl err \<Rightarrow> Inl err
      | Inr s' \<Rightarrow> reduce_loop num_nodes cost_e e_prizes s' rest)"

text \<open>Lines 223 to 243: the accumulators start empty and the loop runs over all edges.\<close>

definition virtual_node_reduction ::
  "(nat \<times> nat) list \<Rightarrow> rat list \<Rightarrow> nat \<Rightarrow> rat \<Rightarrow> error + reduction" where
  "virtual_node_reduction e_idx e_prizes num_nodes cost_e =
     reduce_loop num_nodes cost_e e_prizes reduction_init (enumerate 0 e_idx)"

text \<open>
  The original indices of the edges that stay real edges (prize at most \<open>cost_e\<close>) and of
  those promoted to a virtual node, both in edge order.
\<close>

definition kept_edges :: "rat list \<Rightarrow> rat \<Rightarrow> nat \<Rightarrow> nat list" where
  "kept_edges e_prizes cost_e m = filter (\<lambda>i. e_prizes ! i \<le> cost_e) [0..<m]"

definition promoted_edges :: "rat list \<Rightarrow> rat \<Rightarrow> nat \<Rightarrow> nat list" where
  "promoted_edges e_prizes cost_e m = filter (\<lambda>i. \<not> e_prizes ! i \<le> cost_e) [0..<m]"

text \<open>The two virtual edges of the \<open>j\<close>-th promoted edge, whose original index is \<open>i\<close>.\<close>

definition virtual_pair :: "(nat \<times> nat) list \<Rightarrow> nat \<Rightarrow> nat \<times> nat \<Rightarrow> (nat \<times> nat) list" where
  "virtual_pair e_idx num_nodes ji =
     (case ji of (j, i) \<Rightarrow>
        [(fst (e_idx ! i), num_nodes + j), (num_nodes + j, snd (e_idx ! i))])"

text \<open>The reduced instance in closed form, as the loop is proved to build it.\<close>

definition reduction_of :: "(nat \<times> nat) list \<Rightarrow> rat list \<Rightarrow> nat \<Rightarrow> rat \<Rightarrow> reduction" where
  "reduction_of e_idx e_prizes num_nodes cost_e =
     (let kept = kept_edges e_prizes cost_e (length e_idx);
          prom = promoted_edges e_prizes cost_e (length e_idx)
      in \<lparr>cost_list = map (\<lambda>i. cost_e - e_prizes ! i) kept,
          edge_list = map (\<lambda>i. e_idx ! i) kept,
          virtual_n_prizes = map (\<lambda>i. e_prizes ! i - cost_e) prom,
          virtual_edges = concat (map (virtual_pair e_idx num_nodes) (enumerate 0 prom)),
          virtual_costs = replicate (2 * length prom) 0,
          mapping_n = (\<lambda>v. if num_nodes \<le> v \<and> v < num_nodes + length prom
                            then Some (prom ! (v - num_nodes)) else None),
          mapping_e = (\<lambda>p. if p < length kept then Some (kept ! p) else None)\<rparr>)"

subsection \<open>Prize assignment\<close>

text \<open>
  \<open>torch.topk(xs, k)\<close> with the defaults \<open>largest=True, sorted=True\<close> returns the \<open>k\<close>
  largest entries in descending order together with their positions, and raises when
  \<open>k\<close> exceeds the length. Which of several equal entries it picks is not specified, so
  the positions enter the model as a parameter \<open>topk_indices\<close> and \<open>is_topk\<close> is the
  contract they satisfy. The values are determined: \<open>topk_values\<close>.
\<close>

definition is_topk :: "rat list \<Rightarrow> nat \<Rightarrow> nat list \<Rightarrow> bool" where
  "is_topk xs k idx \<longleftrightarrow>
     length idx = k \<and> distinct idx \<and> (\<forall>i \<in> set idx. i < length xs) \<and>
     sorted_wrt (\<lambda>i j. xs ! j \<le> xs ! i) idx \<and>
     (\<forall>i < length xs. i \<notin> set idx \<longrightarrow> (\<forall>j \<in> set idx. xs ! i \<le> xs ! j))"

definition topk_values :: "rat list \<Rightarrow> nat \<Rightarrow> rat list" where
  "topk_values xs k = take k (rev (sort xs))"

text \<open>\<open>Tensor.unique()\<close> and \<open>np.unique\<close>: the distinct entries in ascending order.\<close>

definition unique :: "'a::linorder list \<Rightarrow> 'a list" where
  "unique xs = sort (remdups xs)"

text \<open>\<open>torch.arange(topk, 0, -1).float()\<close>: the values \<open>topk, topk - 1, ..., 1\<close>.\<close>

definition arange_desc :: "nat \<Rightarrow> rat list" where
  "arange_desc k = map of_nat (rev [1..<Suc k])"

text \<open>
  The indexed assignment \<open>xs[idx] = vals\<close> of one index tensor and one value tensor: a
  position outside the tensor raises \<open>IndexError\<close>, tensors of different lengths raise
  \<open>RuntimeError\<close>; the writes happen in order.
\<close>

fun index_put :: "rat list \<Rightarrow> nat list \<Rightarrow> rat list \<Rightarrow> error + rat list" where
  "index_put xs [] [] = Inr xs"
| "index_put xs (i # idx) (v # vals) =
     (if length xs \<le> i then Inl IndexError else index_put (xs[i := v]) idx vals)"
| "index_put xs _ _ = Inl RuntimeError"

text \<open>
  Lines 197 to 205. \<open>cos_sim\<close> is \<open>torch.nn.CosineSimilarity(dim=-1)\<close> applied to the query and
  one feature row; \<open>topk\<close> is a Python integer and may be negative.
\<close>

definition node_prizes ::
  "('v \<Rightarrow> 'v \<Rightarrow> rat) \<Rightarrow> (rat list \<Rightarrow> nat \<Rightarrow> nat list) \<Rightarrow> 'v \<Rightarrow> 'v list \<Rightarrow> nat \<Rightarrow> int
     \<Rightarrow> error + rat list" where
  "node_prizes cos_sim topk_indices q_emb node_feat num_nodes topk =
     (if 0 < topk then
        let n_prizes = map (cos_sim q_emb) node_feat;
            topk = min (nat topk) num_nodes
        in if length n_prizes < topk then Inl RuntimeError
           else index_put (replicate (length n_prizes) 0) (topk_indices n_prizes topk)
                  (arange_desc topk)
      else Inr (replicate num_nodes 0))"

text \<open>The margin \<open>c = 0.01\<close> of line 178.\<close>

definition c_margin :: rat where
  "c_margin = 1 / 100"

text \<open>
  One iteration of \<^verbatim>\<open>for k in range(topk_e)\<close>, lines 216 to 219, on the pair of the
  prize tensor (updated in place) and \<open>last_topk_e_value\<close>. \<open>sum(indices)\<close> counts the entries
  equal to \<open>topk_e_values[k]\<close>; were it zero, torch's division would give \<open>inf\<close> and the
  minimum would be the second argument.
\<close>

definition tier_step :: "nat \<Rightarrow> rat list \<Rightarrow> nat \<Rightarrow> rat list \<times> rat \<Rightarrow> rat list \<times> rat" where
  "tier_step topk_e topk_e_values k s =
     (case s of (e_prizes, last_topk_e_value) \<Rightarrow>
        let indices = map (\<lambda>p. p = topk_e_values ! k) e_prizes;
            count = length (filter id indices);
            value = (if count = 0 then last_topk_e_value - c_margin
                     else min (of_nat (topk_e - k) / of_nat count)
                            (last_topk_e_value - c_margin))
        in (map (\<lambda>(p, hit). if hit then value else p) (zip e_prizes indices), value))"

text \<open>
  Lines 207 to 221. \<open>topk_e_values[-1]\<close> raises \<open>IndexError\<close> on an empty tensor (no edge
  feature rows).
\<close>

definition edge_prizes ::
  "('v \<Rightarrow> 'v \<Rightarrow> rat) \<Rightarrow> 'v \<Rightarrow> 'v list \<Rightarrow> nat \<Rightarrow> int \<Rightarrow> error + rat list" where
  "edge_prizes cos_sim q_emb e_attr num_edges topk_e =
     (if 0 < topk_e then
        let e_prizes = map (cos_sim q_emb) e_attr;
            topk_e = min (nat topk_e) (length (unique e_prizes));
            topk_e_values = topk_values (unique e_prizes) topk_e
        in if topk_e_values = [] then Inl IndexError
           else
             let e_prizes = map (\<lambda>p. if p < last topk_e_values then 0 else p) e_prizes
             in Inr (fst (fold (tier_step topk_e topk_e_values) [0..<topk_e]
                            (e_prizes, of_nat topk_e)))
      else Inr (replicate num_edges 0))"

text \<open>
  The edge prizes as the specification words them, for comparison with \<open>edge_prizes\<close>:
  the \<open>topk_e\<close> highest distinct similarities, highest first, are the tiers; tier \<open>k\<close> with
  \<open>count\<close> edges gets \<open>min ((topk_e - k) / count) (previous - c)\<close>, the previous value
  starting at \<open>topk_e\<close>; an edge gets the value of the tier its similarity is in, and \<open>0\<close>
  when its similarity is in no tier.
\<close>

fun tier_values_spec :: "nat \<Rightarrow> nat \<Rightarrow> rat \<Rightarrow> nat list \<Rightarrow> rat list" where
  "tier_values_spec topk_e k previous [] = []"
| "tier_values_spec topk_e k previous (count # counts) =
     (let v = min (of_nat (topk_e - k) / of_nat count) (previous - c_margin)
      in v # tier_values_spec topk_e (Suc k) v counts)"

definition edge_prizes_spec :: "rat list \<Rightarrow> nat \<Rightarrow> rat list" where
  "edge_prizes_spec sims topk_e =
     (let topk_e = min topk_e (length (unique sims));
          tiers = topk_values (unique sims) topk_e;
          counts = map (\<lambda>v. length (filter (\<lambda>s. s = v) sims)) tiers;
          tier_value = map_of (zip tiers (tier_values_spec topk_e 0 (of_nat topk_e) counts))
      in map (\<lambda>s. case tier_value s of None \<Rightarrow> 0 | Some v \<Rightarrow> v) sims)"

text \<open>
  The dot product of two vectors given by their coordinates; for unit vectors it is
  their cosine similarity.
\<close>

definition dot :: "rat list \<Rightarrow> rat list \<Rightarrow> rat" where
  "dot u v = sum_list (map (\<lambda>(a, b). a * b) (zip u v))"

subsection \<open>Textual tables and their CSV form\<close>

text \<open>
  The two data frames of \<open>process\<close>: \<open>textual_nodes\<close> has the columns \<open>node_id, node_attr\<close>,
  \<open>textual_edges\<close> the columns \<open>src, edge_attr, dst\<close>; a frame is the list of its rows.
\<close>

type_synonym node_row = "nat \<times> string"

type_synonym edge_row = "nat \<times> string \<times> nat"

text \<open>Decimal digits of a natural number, as \<open>str\<close> prints an integer.\<close>

fun str_of_nat :: "nat \<Rightarrow> string" where
  "str_of_nat n =
     (if n < 10 then [''0123456789'' ! n]
      else str_of_nat (n div 10) @ [''0123456789'' ! (n mod 10)])"

declare str_of_nat.simps [simp del]

text \<open>
  \<open>DataFrame.to_csv(index=False)\<close> with the defaults of pandas: a header line, one line
  per row, fields separated by commas, every line ended by a newline (character \<open>0x0A\<close>), a
  field quoted only when it holds a comma, a double quote (character \<open>0x22\<close>, doubled
  inside the quotes) or a line break.
\<close>

definition csv_field :: "string \<Rightarrow> string" where
  "csv_field s =
     (if list_ex (\<lambda>ch. ch \<in> set [CHR '','', CHR 0x22, CHR 0x0A, CHR 0x0D]) s
      then CHR 0x22 # concat (map (\<lambda>ch. if ch = CHR 0x22 then [ch, ch] else [ch]) s)
             @ [CHR 0x22]
      else s)"

definition csv_line :: "string list \<Rightarrow> string" where
  "csv_line cells = join '','' (map csv_field cells) @ [CHR 0x0A]"

definition nodes_to_csv :: "node_row list \<Rightarrow> string" where
  "nodes_to_csv rows =
     csv_line [''node_id'', ''node_attr'']
     @ concat (map (\<lambda>(node_id, node_attr). csv_line [str_of_nat node_id, node_attr]) rows)"

definition edges_to_csv :: "edge_row list \<Rightarrow> string" where
  "edges_to_csv rows =
     csv_line [''src'', ''edge_attr'', ''dst'']
     @ concat (map (\<lambda>(src, edge_attr, dst).
                      csv_line [str_of_nat src, edge_attr, str_of_nat dst]) rows)"

subsection \<open>Retrieval: solver call and reconstruction\<close>

text \<open>
  A \<open>Data\<close> object with the four attributes the function reads and writes. \<open>edge_index\<close>, a
  \<open>2 \<times> E\<close> tensor, is the list of its columns \<open>(src, dst)\<close>; \<open>num_edges\<close> is the number of
  columns.
\<close>

record 'v data =
  data_x :: "'v list"
  data_edge_index :: "(nat \<times> nat) list"
  data_edge_attr :: "'v list"
  data_num_nodes :: nat

text \<open>\<^verbatim>\<open>[m[k] for k in ks]\<close> on a dict: a missing key raises \<open>KeyError\<close>.\<close>

fun lookup_all :: "('k \<rightharpoonup> 'a) \<Rightarrow> 'k list \<Rightarrow> error + 'a list" where
  "lookup_all m [] = Inr []"
| "lookup_all m (k # ks) =
     (case m k of
        None \<Rightarrow> Inl KeyError
      | Some v \<Rightarrow> (case lookup_all m ks of Inl err \<Rightarrow> Inl err | Inr vs \<Rightarrow> Inr (v # vs)))"

text \<open>
  Selecting rows (or columns of \<open>edge_index\<close>) by a list of positions, as tensor indexing
  and \<open>DataFrame.iloc\<close> do: a position outside raises \<open>IndexError\<close>.
\<close>

definition take_rows :: "'a list \<Rightarrow> nat list \<Rightarrow> error + 'a list" where
  "take_rows rows idx =
     (if list_all (\<lambda>i. i < length rows) idx then Inr (map (\<lambda>i. rows ! i) idx)
      else Inl IndexError)"

text \<open>
  The values of the local variables when the function returns on the solver path; the
  function returns \<open>(r_data, r_desc)\<close>, its \<open>(data, desc)\<close>.
\<close>

record 'v outcome =
  r_selected_nodes :: "nat list"
  r_new_selected_edges :: "nat list"
  r_new_selected_nodes :: "nat list"
  r_data :: "'v data"
  r_desc :: string

text \<open>
  Lines 257 to 286, from the reduction \<open>red\<close> and the solver's answer \<open>(vertices, edges)\<close>.
  \<open>num_edges\<close> is the number of real edges of the reduced instance (line 246).
\<close>

definition reconstruct ::
  "'v data \<Rightarrow> node_row list \<Rightarrow> edge_row list \<Rightarrow> reduction \<Rightarrow> nat list \<Rightarrow> nat list
     \<Rightarrow> error + 'v outcome" where
  "reconstruct graph textual_nodes textual_edges red vertices edges =
     (let num_nodes = data_num_nodes graph;
          num_edges = length (edge_list red);
          e_idx = data_edge_index graph;
          e_attr = data_edge_attr graph;
          node_feat = data_x graph;
          selected_nodes = filter (\<lambda>v. v < num_nodes) vertices
      in case lookup_all (mapping_e red) (filter (\<lambda>e. e < num_edges) edges) of
           Inl err \<Rightarrow> Inl err
         | Inr selected_edges \<Rightarrow>
      let virtual_vertices = filter (\<lambda>v. num_nodes \<le> v) vertices
      in case (if 0 < length virtual_vertices
               then (case lookup_all (mapping_n red) virtual_vertices of
                       Inl err \<Rightarrow> Inl err
                     | Inr new_virtual_edges \<Rightarrow> Inr (selected_edges @ new_virtual_edges))
               else Inr selected_edges) of
           Inl err \<Rightarrow> Inl err
         | Inr new_selected_edges \<Rightarrow>
      case take_rows e_idx new_selected_edges of
           Inl err \<Rightarrow> Inl err
         | Inr edge_index \<Rightarrow>
      let new_selected_nodes =
            unique (selected_nodes @ map fst edge_index @ map snd edge_index)
      in case take_rows textual_nodes new_selected_nodes of
           Inl err \<Rightarrow> Inl err
         | Inr n \<Rightarrow>
      case take_rows textual_edges new_selected_edges of
           Inl err \<Rightarrow> Inl err
         | Inr e \<Rightarrow>
      let desc = nodes_to_csv n @ [CHR 0x0A] @ edges_to_csv e;
          mapping = map_of (zip new_selected_nodes [0..<length new_selected_nodes])
      in case take_rows node_feat new_selected_nodes of
           Inl err \<Rightarrow> Inl err
         | Inr x \<Rightarrow>
      case take_rows e_attr new_selected_edges of
           Inl err \<Rightarrow> Inl err
         | Inr edge_attr \<Rightarrow>
      case lookup_all mapping (map fst edge_index) of
           Inl err \<Rightarrow> Inl err
         | Inr src \<Rightarrow>
      case lookup_all mapping (map snd edge_index) of
           Inl err \<Rightarrow> Inl err
         | Inr dst \<Rightarrow>
      Inr \<lparr>r_selected_nodes = selected_nodes,
           r_new_selected_edges = new_selected_edges,
           r_new_selected_nodes = new_selected_nodes,
           r_data = \<lparr>data_x = x, data_edge_index = zip src dst, data_edge_attr = edge_attr,
                      data_num_nodes = length selected_nodes\<rparr>,
           r_desc = desc\<rparr>)"

text \<open>
  The PCST solver \<open>pcst_fast(edges, prizes, costs, root, num_clusters, pruning,
  verbosity_level)\<close> is external: a parameter that returns the selected vertices and the
  selected edge positions.
\<close>

type_synonym solver =
  "(nat \<times> nat) list \<Rightarrow> rat list \<Rightarrow> rat list \<Rightarrow> int \<Rightarrow> nat \<Rightarrow> string \<Rightarrow> nat \<Rightarrow> nat list \<times> nat list"

text \<open>Lines 193 to 288: prizes, reduction, solver call and reconstruction.\<close>

definition pcst_path ::
  "('v \<Rightarrow> 'v \<Rightarrow> rat) \<Rightarrow> (rat list \<Rightarrow> nat \<Rightarrow> nat list) \<Rightarrow> solver \<Rightarrow> 'v data \<Rightarrow> 'v
     \<Rightarrow> node_row list \<Rightarrow> edge_row list \<Rightarrow> int \<Rightarrow> int \<Rightarrow> rat \<Rightarrow> error + 'v outcome" where
  "pcst_path cos_sim topk_indices pcst_fast graph q_emb textual_nodes textual_edges
       topk topk_e cost_e =
     (let num_nodes = data_num_nodes graph;
          num_edges = length (data_edge_index graph);
          e_idx = data_edge_index graph;
          e_attr = data_edge_attr graph;
          node_feat = data_x graph;
          root = - 1;
          num_clusters = 1;
          pruning = ''gw'';
          verbosity_level = 0
      in case node_prizes cos_sim topk_indices q_emb node_feat num_nodes topk of
           Inl err \<Rightarrow> Inl err
         | Inr n_prizes \<Rightarrow>
      case edge_prizes cos_sim q_emb e_attr num_edges topk_e of
           Inl err \<Rightarrow> Inl err
         | Inr e_prizes \<Rightarrow>
      case virtual_node_reduction e_idx e_prizes num_nodes cost_e of
           Inl err \<Rightarrow> Inl err
         | Inr red \<Rightarrow>
      let prizes = n_prizes @ virtual_n_prizes red;
          costs = (if 0 < length (virtual_costs red) then cost_list red @ virtual_costs red
                   else cost_list red);
          edges = (if 0 < length (virtual_costs red) then edge_list red @ virtual_edges red
                   else edge_list red);
          (vertices, edges) =
             pcst_fast edges prizes costs root num_clusters pruning verbosity_level
      in reconstruct graph textual_nodes textual_edges red vertices edges)"

text \<open>\<open>WebQSPDataset.retrieval_via_pcst\<close>, lines 172 to 288.\<close>

definition retrieval_via_pcst ::
  "('v \<Rightarrow> 'v \<Rightarrow> rat) \<Rightarrow> (rat list \<Rightarrow> nat \<Rightarrow> nat list) \<Rightarrow> solver \<Rightarrow> 'v data \<Rightarrow> 'v
     \<Rightarrow> node_row list \<Rightarrow> edge_row list \<Rightarrow> int \<Rightarrow> int \<Rightarrow> rat \<Rightarrow> error + ('v data \<times> string)" where
  "retrieval_via_pcst cos_sim topk_indices pcst_fast graph q_emb textual_nodes textual_edges
       topk topk_e cost_e =
     (let num_nodes = data_num_nodes graph;
          e_idx = data_edge_index graph;
          e_attr = data_edge_attr graph;
          node_feat = data_x graph
      in if length textual_nodes = 0 \<or> length textual_edges = 0 then
           let desc = nodes_to_csv textual_nodes @ [CHR 0x0A] @ edges_to_csv textual_edges;
               new_graph = \<lparr>data_x = node_feat, data_edge_index = e_idx,
                              data_edge_attr = e_attr, data_num_nodes = num_nodes\<rparr>
           in Inr (new_graph, desc)
         else
           (case pcst_path cos_sim topk_indices pcst_fast graph q_emb textual_nodes
                   textual_edges topk topk_e cost_e of
              Inl err \<Rightarrow> Inl err
            | Inr r \<Rightarrow> Inr (r_data r, r_desc r)))"

text \<open>The node ids that occur in an edge list, as sources or as destinations.\<close>

definition node_ids :: "(nat \<times> nat) list \<Rightarrow> nat set" where
  "node_ids es = fst ` set es \<union> snd ` set es"

text \<open>
  The description as the specification words it, for comparison with the \<open>desc\<close> of the
  code: the CSV of the selected node rows, a newline, and the CSV of the selected edge
  rows in which source and destination are the compact ids of the returned \<open>edge_index\<close>.
\<close>

definition desc_spec :: "node_row list \<Rightarrow> edge_row list \<Rightarrow> (nat \<times> nat) list \<Rightarrow> string" where
  "desc_spec n e edge_index =
     nodes_to_csv n @ [CHR 0x0A]
     @ edges_to_csv (map (\<lambda>((src, edge_attr, dst), (src', dst')). (src', edge_attr, dst'))
                       (zip e edge_index))"

subsection \<open>Inputs the way \<open>process\<close> builds them, and the solver's contract\<close>

text \<open>
  \<open>process\<close> builds the graph and the two tables from the same triples: one feature row
  and one table row per node, one feature row and one table row per edge, and edges
  between nodes of the graph.
\<close>

definition well_formed :: "'v data \<Rightarrow> node_row list \<Rightarrow> edge_row list \<Rightarrow> bool" where
  "well_formed graph textual_nodes textual_edges \<longleftrightarrow>
     length (data_x graph) = data_num_nodes graph \<and>
     length textual_nodes = data_num_nodes graph \<and>
     length (data_edge_attr graph) = length (data_edge_index graph) \<and>
     length textual_edges = length (data_edge_index graph) \<and>
     list_all (\<lambda>(src, dst). src < data_num_nodes graph \<and> dst < data_num_nodes graph)
       (data_edge_index graph)"

text \<open>
  Lines 330 to 342 of \<open>process\<close>: the loop over the triples of one graph. The dict
  \<open>raw_nodes\<close> is the list of its items in the order of insertion, the order in which
  \<open>items()\<close> gives them; \<open>lower\<close> is \<open>str.lower\<close>; reading a key that the dict does not
  hold raises \<open>KeyError\<close>.
\<close>

type_synonym triple = "string \<times> string \<times> string"

fun raw_tables ::
  "(string \<Rightarrow> string) \<Rightarrow> triple list \<Rightarrow> (string \<times> nat) list \<Rightarrow> edge_row list
     \<Rightarrow> error + ((string \<times> nat) list \<times> edge_row list)" where
  "raw_tables lower [] raw_nodes raw_edges = Inr (raw_nodes, raw_edges)"
| "raw_tables lower ((h, r, t) # tris) raw_nodes raw_edges =
     (let h' = lower h;
          t' = lower t;
          raw_nodes1 = (if map_of raw_nodes h' = None
                        then raw_nodes @ [(h', length raw_nodes)] else raw_nodes);
          raw_nodes2 = (if map_of raw_nodes1 t' = None
                        then raw_nodes1 @ [(t', length raw_nodes1)] else raw_nodes1)
      in case map_of raw_nodes2 h' of
           None \<Rightarrow> Inl KeyError
         | Some src \<Rightarrow>
             (case map_of raw_nodes2 t' of
                None \<Rightarrow> Inl KeyError
              | Some dst \<Rightarrow> raw_tables lower tris raw_nodes2 (raw_edges @ [(src, r, dst)])))"

text \<open>
  Lines 328 to 362 of \<open>process\<close>: the graph and the two tables that are passed to
  \<open>retrieval_via_pcst\<close> for one list of triples. \<open>text2embedding\<close> is the embedding function
  with the model, the tokenizer and the device applied, and gives the rows of the tensor
  it returns.
\<close>

definition process_graph ::
  "(string list \<Rightarrow> 'v list) \<Rightarrow> (string \<Rightarrow> string) \<Rightarrow> triple list
     \<Rightarrow> error + ('v data \<times> node_row list \<times> edge_row list)" where
  "process_graph text2embedding lower tris =
     (case raw_tables lower tris [] [] of
        Inl err \<Rightarrow> Inl err
      | Inr (raw_nodes, raw_edges) \<Rightarrow>
          let nodes = map (\<lambda>(k, v). (v, k)) raw_nodes;
              edges = raw_edges;
              x = text2embedding (map (\<lambda>(node_id, node_attr). node_attr) nodes);
              edge_attr = text2embedding (map (\<lambda>(src, edge_attr, dst). edge_attr) edges);
              edge_index = zip (map (\<lambda>(src, edge_attr, dst). src) edges)
                               (map (\<lambda>(src, edge_attr, dst). dst) edges);
              raw_graph = \<lparr>data_x = x, data_edge_index = edge_index, data_edge_attr = edge_attr,
                            data_num_nodes = length nodes\<rparr>
          in Inr (raw_graph, nodes, edges))"

text \<open>
  What the tables of \<open>process\<close> have to do with its graph: the \<open>node_id\<close> of a node row is
  its position, the number of the node in the graph, and column \<open>i\<close> of \<open>edge_index\<close> is the
  \<open>(src, dst)\<close> of edge row \<open>i\<close>.
\<close>

definition tables_match :: "'v data \<Rightarrow> node_row list \<Rightarrow> edge_row list \<Rightarrow> bool" where
  "tables_match graph textual_nodes textual_edges \<longleftrightarrow>
     map fst textual_nodes = [0..<length textual_nodes] \<and>
     data_edge_index graph = map (\<lambda>(src, edge_attr, dst). (src, dst)) textual_edges"

text \<open>
  The solver returns vertices of the instance it is given, whose vertices are the
  positions of the prize vector.
\<close>

definition solver_in_range :: "solver \<Rightarrow> bool" where
  "solver_in_range pcst_fast \<longleftrightarrow>
     (\<forall>edges prizes costs root num_clusters pruning verbosity_level.
        list_all (\<lambda>v. v < length prizes)
          (fst (pcst_fast edges prizes costs root num_clusters pruning verbosity_level)))"

text \<open>
  The solver returns a tree of the instance it is given: no vertex twice, edge positions
  of the instance whose two ends are returned vertices, and, when more than one vertex is
  returned, every returned vertex on some returned edge.
\<close>

definition solver_tree :: "solver \<Rightarrow> bool" where
  "solver_tree pcst_fast \<longleftrightarrow>
     (\<forall>edges prizes costs root num_clusters pruning verbosity_level.
        let answer = pcst_fast edges prizes costs root num_clusters pruning verbosity_level;
            vs = fst answer;
            es = snd answer
        in distinct vs
         \<and> list_all (\<lambda>e. e < length edges \<and> fst (edges ! e) \<in> set vs
                           \<and> snd (edges ! e) \<in> set vs) es
         \<and> (1 < length vs \<longrightarrow>
              list_all (\<lambda>v. list_ex (\<lambda>e. v = fst (edges ! e) \<or> v = snd (edges ! e)) es) vs))"

subsection \<open>A small instance\<close>

text \<open>
  Three nodes \<open>a, b, c\<close> and the edges \<open>a -r-> b\<close> and \<open>b -s-> c\<close>, with unit feature
  vectors, for which \<open>dot\<close> is the cosine similarity: the query is most similar to node
  \<open>b\<close> and to edge \<open>s\<close>. \<open>fixed_topk idx\<close> is a top-k selection that answers \<open>idx\<close>, and
  \<open>checked_solver vs es\<close> a solver that answers with the vertices \<open>vs\<close> and the edge
  positions \<open>es\<close> when they are a tree of the instance it is given (\<open>tree_ok\<close>), and with
  the empty tree otherwise.
\<close>

definition ex_graph :: "rat list data" where
  "ex_graph = \<lparr>data_x = [[0, 1], [1, 0], [0, 1]], data_edge_index = [(0, 1), (1, 2)],
                data_edge_attr = [[0, 1], [1, 0]], data_num_nodes = 3\<rparr>"

definition ex_nodes :: "node_row list" where
  "ex_nodes = [(0, ''a''), (1, ''b''), (2, ''c'')]"

definition ex_edges :: "edge_row list" where
  "ex_edges = [(0, ''r'', 1), (1, ''s'', 2)]"

text \<open>An embedding function that gives the feature rows of the instance.\<close>

definition ex_text2embedding :: "string list \<Rightarrow> rat list list" where
  "ex_text2embedding = map (\<lambda>s. if s = ''b'' \<or> s = ''s'' then [1, 0] else [0, 1])"

definition fixed_topk :: "nat list \<Rightarrow> rat list \<Rightarrow> nat \<Rightarrow> nat list" where
  "fixed_topk idx = (\<lambda>xs k. idx)"

definition tree_ok :: "(nat \<times> nat) list \<Rightarrow> rat list \<Rightarrow> nat list \<Rightarrow> nat list \<Rightarrow> bool" where
  "tree_ok edges prizes vs es \<longleftrightarrow>
     distinct vs \<and> list_all (\<lambda>v. v < length prizes) vs
     \<and> list_all (\<lambda>e. e < length edges \<and> fst (edges ! e) \<in> set vs
                       \<and> snd (edges ! e) \<in> set vs) es
     \<and> (1 < length vs \<longrightarrow>
          list_all (\<lambda>v. list_ex (\<lambda>e. v = fst (edges ! e) \<or> v = snd (edges ! e)) es) vs)"

definition checked_solver :: "nat list \<Rightarrow> nat list \<Rightarrow> solver" where
  "checked_solver vs es =
     (\<lambda>edges prizes costs root num_clusters pruning verbosity_level.
        if tree_ok edges prizes vs es then (vs, es) else ([], []))"

subsection \<open>Text embedding with the catch-all handler\<close>

text \<open>
  A two-dimensional tensor: its shape and its rows. \<open>torch.zeros((0, 1024))\<close> has shape
  \<open>(0, 1024)\<close> and no row.
\<close>

record 'a tensor2 =
  t_shape :: "nat \<times> nat"
  t_rows :: "'a list list"

definition zeros :: "nat \<times> nat \<Rightarrow> rat tensor2" where
  "zeros sh = \<lparr>t_shape = sh, t_rows = replicate (fst sh) (replicate (snd sh) 0)\<rparr>"

text \<open>
  What the tokenizer returns: \<open>input_ids\<close> and \<open>attention_mask\<close>, one row of token numbers
  per text.
\<close>

record encoding =
  input_ids :: "nat list list"
  attention_mask :: "nat list list"

text \<open>
  The class \<open>Dataset\<close>: its length is the number of rows of \<open>input_ids\<close>, item \<open>index\<close> is
  the pair of row \<open>index\<close> of both tensors. Reading the items in order raises \<open>IndexError\<close>
  when \<open>attention_mask\<close> has fewer rows.
\<close>

definition dataset_items :: "encoding \<Rightarrow> error + (nat list \<times> nat list) list" where
  "dataset_items enc =
     (if length (attention_mask enc) < length (input_ids enc) then Inl IndexError
      else Inr (map (\<lambda>index. (input_ids enc ! index, attention_mask enc ! index))
                  [0..<length (input_ids enc)]))"

text \<open>\<open>DataLoader(dataset, batch_size=256, shuffle=False)\<close>: consecutive batches of 256 items.\<close>

function batches :: "'a list \<Rightarrow> 'a list list" where
  "batches xs = (if xs = [] then [] else take 256 xs # batches (drop 256 xs))"
  by pat_completeness auto
termination
  by (relation "measure length") auto

declare batches.simps [simp del]

text \<open>
  The loop over the batches: \<open>model\<close> is the forward pass of the sentence transformer on
  one batch (after the move to the device); an exception it raises ends the loop.
\<close>

fun embed_batches ::
  "((nat list \<times> nat list) list \<Rightarrow> error + 'a tensor2) \<Rightarrow> (nat list \<times> nat list) list list
     \<Rightarrow> 'a tensor2 list \<Rightarrow> error + 'a tensor2 list" where
  "embed_batches model [] all_embeddings_list = Inr all_embeddings_list"
| "embed_batches model (batch # rest) all_embeddings_list =
     (case model batch of
        Inl err \<Rightarrow> Inl err
      | Inr embeddings \<Rightarrow> embed_batches model rest (all_embeddings_list @ [embeddings]))"

text \<open>
  \<open>torch.cat(ts, dim=0)\<close>: raises on an empty list and on tensors whose second dimensions
  differ.
\<close>

definition torch_cat :: "'a tensor2 list \<Rightarrow> error + 'a tensor2" where
  "torch_cat ts =
     (case ts of
        [] \<Rightarrow> Inl RuntimeError
      | t # rest \<Rightarrow>
          if list_all (\<lambda>u. snd (t_shape u) = snd (t_shape t)) rest
          then Inr \<lparr>t_shape = (sum_list (map (\<lambda>u. fst (t_shape u)) ts), snd (t_shape t)),
                     t_rows = concat (map t_rows ts)\<rparr>
          else Inl RuntimeError)"

text \<open>The body of the \<open>try\<close> block of \<open>sbert_text2embedding\<close>, lines 89 to 115.\<close>

definition try_embedding ::
  "((nat list \<times> nat list) list \<Rightarrow> error + rat tensor2) \<Rightarrow> (string list \<Rightarrow> error + encoding)
     \<Rightarrow> string list \<Rightarrow> error + rat tensor2" where
  "try_embedding model tokenizer text =
     (case tokenizer text of
        Inl err \<Rightarrow> Inl err
      | Inr encoding \<Rightarrow>
     case dataset_items encoding of
        Inl err \<Rightarrow> Inl err
      | Inr dataset \<Rightarrow>
     case embed_batches model (batches dataset) [] of
        Inl err \<Rightarrow> Inl err
      | Inr all_embeddings_list \<Rightarrow> torch_cat all_embeddings_list)"

text \<open>
  \<open>sbert_text2embedding\<close>, lines 85 to 121: the bare \<open>except\<close> catches every exception of
  the block and returns \<open>torch.zeros((0, 1024))\<close>. The device only says where the forward
  pass runs and is left out.
\<close>

definition sbert_text2embedding ::
  "((nat list \<times> nat list) list \<Rightarrow> error + rat tensor2) \<Rightarrow> (string list \<Rightarrow> error + encoding)
     \<Rightarrow> string list \<Rightarrow> rat tensor2" where
  "sbert_text2embedding model tokenizer text =
     (case try_embedding model tokenizer text of
        Inl err \<Rightarrow> zeros (0, 1024)
      | Inr all_embeddings \<Rightarrow> all_embeddings)"

text \<open>
  Stand-ins for the external tokenizer and model: a tokenizer that encodes a text by its
  length, one that always raises, and a model that embeds a row by the sum of its token
  numbers.
\<close>

definition ex_tokenizer :: "string list \<Rightarrow> error + encoding" where
  "ex_tokenizer text =
     Inr \<lparr>input_ids = map (\<lambda>s. [length s]) text, attention_mask = map (\<lambda>s. [1]) text\<rparr>"

definition failing_tokenizer :: "string list \<Rightarrow> error + encoding" where
  "failing_tokenizer text = Inl RuntimeError"

definition ex_embed_row :: "nat list \<times> nat list \<Rightarrow> rat list" where
  "ex_embed_row item = [of_nat (sum_list (fst item))]"

definition ex_model :: "(nat list \<times> nat list) list \<Rightarrow> error + rat tensor2" where
  "ex_model batch = Inr \<lparr>t_shape = (length batch, 1), t_rows = map ex_embed_row batch\<rparr>"

section \<open>Theorems\<close>

subsection \<open>C9: one aggregated ImportError\<close>

text \<open>Every string of a joined list occurs in the result.\<close>

lemma join_names:
  "name \<in> set names \<Longrightarrow> \<exists>pre post. join sep names = pre @ name @ post"
proof (induction sep names rule: join.induct)
  case (1 sep)
  then show ?case by simp
next
  case (2 sep s)
  then have "join sep [s] = [] @ name @ []" by simp
  then show ?case by blast
next
  case (3 sep s t ts)
  show ?case
  proof (cases "name = s")
    case True
    then have "join sep (s # t # ts) = [] @ name @ (sep @ join sep (t # ts))" by simp
    then show ?thesis by blast
  next
    case False
    with 3 obtain pre post where "join sep (t # ts) = pre @ name @ post" by auto
    then have "join sep (s # t # ts) = (s @ sep @ pre) @ name @ post" by simp
    then show ?thesis by blast
  qed
qed

text \<open>
  C9. Let \<open>names\<close> be the names of those of \<open>pcst_fast\<close>, \<open>transformers\<close>, \<open>datasets\<close>,
  \<open>pandas\<close> that are unavailable, in this order. If any is unavailable, the constructor
  returns a single \<open>ImportError\<close> whose message is a back quote, \<open>pip install\<close>, a space, the
  names joined by spaces, a back quote and \<open>to use this dataset.\<close>, whatever the rest of
  the constructor would do (the rest is not run), and every name of \<open>names\<close> occurs in the
  message; if all four are available the check raises nothing and the constructor
  continues with the rest.
\<close>

theorem C9_init_import_check:
  "let names = (if p then [] else [''pcst_fast''])
               @ (if t then [] else [''transformers''])
               @ (if d then [] else [''datasets''])
               @ (if pd then [] else [''pandas'']);
       message = CHR 0x60 # ''pip install '' @ join '' '' names
                 @ CHR 0x60 # '' to use this dataset.''
   in WebQSPDataset_init p t d pd super_init =
        (if p \<and> t \<and> d \<and> pd then super_init () else Inl (ImportError message))
      \<and> (\<forall>name \<in> set names. \<exists>pre post. message = pre @ name @ post)"
proof -
  define names where "names = (if p then [] else [''pcst_fast''])
               @ (if t then [] else [''transformers''])
               @ (if d then [] else [''datasets''])
               @ (if pd then [] else [''pandas''])"
  define message where "message = CHR 0x60 # ''pip install '' @ join '' '' names
                 @ CHR 0x60 # '' to use this dataset.''"
  have run: "WebQSPDataset_init p t d pd super_init =
        (if p \<and> t \<and> d \<and> pd then super_init () else Inl (ImportError message))"
    unfolding message_def names_def
    by (cases p; cases t; cases d; cases pd)
       (simp_all add: WebQSPDataset_init_def error_out_def)
  have named: "\<exists>pre post. message = pre @ name @ post" if "name \<in> set names" for name
  proof -
    from join_names [OF that] obtain pre post where "join '' '' names = pre @ name @ post"
      by blast
    then have "message = (CHR 0x60 # ''pip install '' @ pre) @ name
                 @ (post @ CHR 0x60 # '' to use this dataset.'')"
      by (simp add: message_def)
    then show ?thesis by blast
  qed
  show ?thesis
    unfolding Let_def names_def [symmetric] message_def [symmetric]
    using run named by blast
qed

theorem C9_init_import_check_witness:
  "WebQSPDataset_init False False False False (\<lambda>u. Inr (0::nat))
     = Inl (ImportError (CHR 0x60 # ''pip install pcst_fast transformers datasets pandas''
                           @ CHR 0x60 # '' to use this dataset.''))
   \<and> WebQSPDataset_init True False True False (\<lambda>u. Inr (0::nat))
     = Inl (ImportError (CHR 0x60 # ''pip install transformers pandas''
                           @ CHR 0x60 # '' to use this dataset.''))
   \<and> (\<exists>pre post. CHR 0x60 # ''pip install transformers pandas''
                      @ CHR 0x60 # '' to use this dataset.'' = pre @ ''pandas'' @ post)
   \<and> WebQSPDataset_init True True False True (\<lambda>u. Inr (0::nat))
     = Inl (ImportError (CHR 0x60 # ''pip install datasets''
                           @ CHR 0x60 # '' to use this dataset.''))
   \<and> WebQSPDataset_init True True True True (\<lambda>u. Inr (0::nat)) = Inr 0"
  using C9_init_import_check [of False False False False "\<lambda>u. Inr (0::nat)"]
        C9_init_import_check [of True False True False "\<lambda>u. Inr (0::nat)"]
        C9_init_import_check [of True True False True "\<lambda>u. Inr (0::nat)"]
        C9_init_import_check [of True True True True "\<lambda>u. Inr (0::nat)"]
  by (simp add: Let_def)

subsection \<open>C1: the virtual-node reduction\<close>

lemma reduce_loop_snoc:
  "reduce_loop n c ps s (xs @ [x]) =
     (case reduce_loop n c ps s xs of Inl e \<Rightarrow> Inl e | Inr s' \<Rightarrow> reduce_step n c ps s' x)"
  by (induction xs arbitrary: s) (auto split: sum.splits)

lemma nth_snoc_filter:
  "map (\<lambda>i. f ((xs @ [x]) ! i)) (filter P [0..<length xs]) = map (\<lambda>i. f (xs ! i)) (filter P [0..<length xs])"
  by (rule map_cong) (auto simp: nth_append)

lemma virtual_pair_snoc:
  "map (virtual_pair (xs @ [x]) n) (enumerate 0 (filter P [0..<length xs]))
   = map (virtual_pair xs n) (enumerate 0 (filter P [0..<length xs]))"
proof (rule map_cong)
  fix p assume "p \<in> set (enumerate 0 (filter P [0..<length xs]))"
  then have "snd p \<in> snd ` set (enumerate 0 (filter P [0..<length xs]))" by (rule imageI)
  then have "snd p \<in> set (filter P [0..<length xs])"
    by (simp only: set_map [symmetric] map_snd_enumerate)
  then have "snd p < length xs" by simp
  then show "virtual_pair (xs @ [x]) n p = virtual_pair xs n p"
    by (cases p) (simp add: virtual_pair_def nth_append)
qed simp

lemma replicate_two_end: "replicate k (0::rat) @ [0, 0] = 0 # 0 # replicate k 0"
  by (induction k) simp_all


lemma reduction_of_snoc:
  assumes "length xs < length ps"
  shows "reduce_step n c ps (reduction_of xs ps n c) (length xs, x) = Inr (reduction_of (xs @ [x]) ps n c)"
proof (cases "ps ! length xs \<le> c")
  case True
  show ?thesis using assms True
    apply (cases x)
    apply (simp add: reduce_step_def reduction_of_def kept_edges_def promoted_edges_def Let_def nth_snoc_filter[where f="\<lambda>x. x", simplified] virtual_pair_snoc)
    apply (auto simp: fun_eq_iff nth_append)
    done
next
  case False
  show ?thesis using assms False
    apply (cases x)
    apply (simp add: reduce_step_def reduction_of_def kept_edges_def promoted_edges_def Let_def nth_snoc_filter[where f="\<lambda>x. x", simplified] virtual_pair_snoc)
    apply (auto simp: fun_eq_iff nth_append enumerate_append_eq virtual_pair_snoc replicate_two_end)
    apply (simp add: virtual_pair_def)
    done
qed


lemma reduce_loop_characterised:
  "length xs \<le> length ps \<Longrightarrow>
     reduce_loop n c ps reduction_init (enumerate 0 xs) = Inr (reduction_of xs ps n c)"
proof (induction xs rule: rev_induct)
  case Nil
  show ?case
    by (simp add: reduction_init_def reduction_of_def kept_edges_def promoted_edges_def fun_eq_iff)
next
  case (snoc x xs)
  then show ?case
    by (simp add: enumerate_append_eq reduce_loop_snoc reduction_of_snoc)
qed


text \<open>
  C1. When the prize vector covers every edge, the reduction returns, and its result is
  exactly this: the edges with prize at most \<open>cost_e\<close> are kept, in order, as real edges
  with their own endpoints and the non-negative cost \<open>cost_e - e_prizes[i]\<close>, position \<open>p\<close> of
  the edge list mapped back to the index of the \<open>p\<close>-th kept edge; the \<open>j\<close>-th edge with a
  larger prize gives the one virtual node \<open>num_nodes + j\<close> with prize
  \<open>e_prizes[i] - cost_e\<close>, the two zero-cost edges \<open>(src, num_nodes + j)\<close> and
  \<open>(num_nodes + j, dst)\<close>, and the virtual node mapped back to its index \<open>i\<close>. The lists and
  maps hold nothing else.
\<close>

theorem C1_virtual_node_reduction:
  assumes "length e_idx \<le> length e_prizes"
  shows "\<exists>r. virtual_node_reduction e_idx e_prizes num_nodes cost_e = Inr r
    \<and> edge_list r = map (\<lambda>i. e_idx ! i) (kept_edges e_prizes cost_e (length e_idx))
    \<and> cost_list r =
        map (\<lambda>i. cost_e - e_prizes ! i) (kept_edges e_prizes cost_e (length e_idx))
    \<and> (\<forall>c \<in> set (cost_list r). 0 \<le> c)
    \<and> mapping_e r =
        (\<lambda>p. if p < length (kept_edges e_prizes cost_e (length e_idx))
             then Some (kept_edges e_prizes cost_e (length e_idx) ! p) else None)
    \<and> virtual_n_prizes r =
        map (\<lambda>i. e_prizes ! i - cost_e) (promoted_edges e_prizes cost_e (length e_idx))
    \<and> virtual_edges r =
        concat (map (virtual_pair e_idx num_nodes)
          (enumerate 0 (promoted_edges e_prizes cost_e (length e_idx))))
    \<and> virtual_costs r =
        replicate (2 * length (promoted_edges e_prizes cost_e (length e_idx))) 0
    \<and> mapping_n r =
        (\<lambda>v. if num_nodes \<le> v
                \<and> v < num_nodes + length (promoted_edges e_prizes cost_e (length e_idx))
             then Some (promoted_edges e_prizes cost_e (length e_idx) ! (v - num_nodes))
             else None)"
proof -
  have run: "virtual_node_reduction e_idx e_prizes num_nodes cost_e
      = Inr (reduction_of e_idx e_prizes num_nodes cost_e)"
    unfolding virtual_node_reduction_def using assms by (rule reduce_loop_characterised)
  have nonneg: "\<forall>c \<in> set (map (\<lambda>i. cost_e - e_prizes ! i)
      (kept_edges e_prizes cost_e (length e_idx))). 0 \<le> c"
    by (auto simp: kept_edges_def)
  show ?thesis
    unfolding run using nonneg
    by (simp add: reduction_of_def Let_def)
qed

theorem C1_virtual_node_reduction_witness:
  "length [(0, 1), (1, 2::nat)] \<le> length [1 / 4, 2 :: rat]
   \<and> (\<exists>r. virtual_node_reduction [(0, 1), (1, 2)] [1 / 4, 2] 3 (1 / 2) = Inr r
       \<and> edge_list r = [(0, 1)] \<and> cost_list r = [1 / 4] \<and> mapping_e r 0 = Some 0
       \<and> mapping_e r 1 = None
       \<and> virtual_n_prizes r = [3 / 2] \<and> virtual_edges r = [(1, 3), (3, 2)]
       \<and> virtual_costs r = [0, 0] \<and> mapping_n r 3 = Some 1 \<and> mapping_n r 4 = None)"
proof -
  have kept: "kept_edges [1 / 4, 2] (1 / 2) (length [(0, 1), (1, 2::nat)]) = [0]"
    and prom: "promoted_edges [1 / 4, 2] (1 / 2) (length [(0, 1), (1, 2::nat)]) = [1]"
    by (simp_all add: kept_edges_def promoted_edges_def upt_rec [of 0] upt_rec [of 1]
        numeral_2_eq_2)
  show ?thesis
    using C1_virtual_node_reduction
      [where e_idx = "[(0, 1), (1, 2)]" and e_prizes = "[1 / 4, 2]" and cost_e = "1 / 2"
         and num_nodes = 3]
    unfolding kept prom by (auto simp: virtual_pair_def numeral_2_eq_2)
qed

subsection \<open>C3: node prizes\<close>

lemma index_put_distinct:
  "distinct idx \<Longrightarrow> \<forall>i \<in> set idx. i < length xs \<Longrightarrow> length vals = length idx \<Longrightarrow>
   \<exists>ys. index_put xs idx vals = Inr ys \<and> length ys = length xs
     \<and> (\<forall>j < length idx. ys ! (idx ! j) = vals ! j)
     \<and> (\<forall>i. i \<notin> set idx \<longrightarrow> ys ! i = xs ! i)"
proof (induction idx arbitrary: xs vals)
  case Nil
  then show ?case by simp
next
  case (Cons i idx)
  then obtain v vals' where vals: "vals = v # vals'" by (cases vals) auto
  have i: "i < length xs" "i \<notin> set idx" using Cons.prems by auto
  from Cons.prems vals
  have "\<exists>ys. index_put (xs[i := v]) idx vals' = Inr ys \<and> length ys = length (xs[i := v])
     \<and> (\<forall>j < length idx. ys ! (idx ! j) = vals' ! j)
     \<and> (\<forall>i'. i' \<notin> set idx \<longrightarrow> ys ! i' = xs[i := v] ! i')"
    by (intro Cons.IH) auto
  then obtain ys where ys: "index_put (xs[i := v]) idx vals' = Inr ys" "length ys = length xs"
    "\<forall>j < length idx. ys ! (idx ! j) = vals' ! j"
    "\<forall>i'. i' \<notin> set idx \<longrightarrow> ys ! i' = xs[i := v] ! i'"
    by auto
  have head: "ys ! i = v" using ys(4) i by simp
  have "\<forall>j < length (i # idx). ys ! ((i # idx) ! j) = vals ! j"
  proof (intro allI impI)
    fix j assume "j < length (i # idx)"
    then show "ys ! ((i # idx) ! j) = vals ! j"
      using head ys(3) vals by (cases j) auto
  qed
  moreover have "\<forall>i'. i' \<notin> set (i # idx) \<longrightarrow> ys ! i' = xs ! i'"
    using ys(4) by auto
  ultimately show ?case using ys(1,2) i vals by simp
qed

lemma arange_desc_nth: "j < k \<Longrightarrow> arange_desc k ! j = of_nat (k - j)"
proof -
  assume j: "j < k"
  have "rev [1..<Suc k] ! j = [1..<Suc k] ! (length [1..<Suc k] - Suc j)"
    using j by (intro rev_nth) simp
  also have "\<dots> = k - j" using j by (simp del: upt_Suc)
  finally have "rev [1..<Suc k] ! j = k - j" .
  then show ?thesis using j unfolding arange_desc_def by (simp del: upt_Suc)
qed

lemma length_arange_desc: "length (arange_desc k) = k"
  by (simp add: arange_desc_def)

text \<open>
  C3. With \<open>topk \<le> 0\<close> every node prize is \<open>0\<close>. With \<open>topk > 0\<close>, \<open>k\<close> the value of \<open>topk\<close>
  clamped to \<open>num_nodes\<close> and \<open>idx\<close> the positions torch's top-k selection returns for the
  similarities (the \<open>k\<close> highest, in descending order of similarity), the call returns
  a prize vector in which the \<open>j\<close>-th selected node has prize \<open>k - j\<close> (so \<open>k, k - 1, ..., 1\<close>)
  and every other node has prize \<open>0\<close>; a node with a larger prize never has a smaller
  similarity. The selection needs \<open>k\<close> to be at most the number of feature rows.
\<close>

theorem C3_node_prizes:
  "let sims = map (cos_sim q_emb) node_feat;
       k = min (nat topk) num_nodes;
       idx = topk_indices sims k
   in (topk \<le> 0 \<longrightarrow>
         node_prizes cos_sim topk_indices q_emb node_feat num_nodes topk
           = Inr (replicate num_nodes 0))
    \<and> (0 < topk \<and> k \<le> length node_feat \<and> is_topk sims k idx \<longrightarrow>
         (\<exists>ps. node_prizes cos_sim topk_indices q_emb node_feat num_nodes topk = Inr ps
            \<and> length ps = length node_feat
            \<and> (\<forall>j < k. ps ! (idx ! j) = of_nat (k - j))
            \<and> (\<forall>i < length node_feat. i \<notin> set idx \<longrightarrow> ps ! i = 0)
            \<and> (\<forall>a < length node_feat. \<forall>b < length node_feat.
                  ps ! b < ps ! a \<longrightarrow> sims ! b \<le> sims ! a)))"
proof -
  define sims where "sims = map (cos_sim q_emb) node_feat"
  define k where "k = min (nat topk) num_nodes"
  define idx where "idx = topk_indices sims k"
  have zero: "node_prizes cos_sim topk_indices q_emb node_feat num_nodes topk
           = Inr (replicate num_nodes 0)" if "topk \<le> 0"
    using that by (simp add: node_prizes_def)
  have pos: "\<exists>ps. node_prizes cos_sim topk_indices q_emb node_feat num_nodes topk = Inr ps
            \<and> length ps = length node_feat
            \<and> (\<forall>j < k. ps ! (idx ! j) = of_nat (k - j))
            \<and> (\<forall>i < length node_feat. i \<notin> set idx \<longrightarrow> ps ! i = 0)
            \<and> (\<forall>a < length node_feat. \<forall>b < length node_feat.
                  ps ! b < ps ! a \<longrightarrow> sims ! b \<le> sims ! a)"
    if topk: "0 < topk" and le: "k \<le> length node_feat" and tk: "is_topk sims k idx"
  proof -
    have len: "length idx = k" and dist: "distinct idx"
      and rng: "\<forall>i \<in> set idx. i < length sims"
      and srt: "sorted_wrt (\<lambda>i j. sims ! j \<le> sims ! i) idx"
      and rest: "\<forall>i < length sims. i \<notin> set idx \<longrightarrow> (\<forall>j \<in> set idx. sims ! i \<le> sims ! j)"
      using tk by (auto simp: is_topk_def)
    have lsims: "length sims = length node_feat" by (simp add: sims_def)
    have "\<exists>ys. index_put (replicate (length sims) 0) idx (arange_desc k) = Inr ys
        \<and> length ys = length (replicate (length sims) (0::rat))
        \<and> (\<forall>j < length idx. ys ! (idx ! j) = arange_desc k ! j)
        \<and> (\<forall>i. i \<notin> set idx \<longrightarrow> ys ! i = replicate (length sims) 0 ! i)"
      using dist rng len by (intro index_put_distinct) (simp_all add: length_arange_desc)
    then obtain ps where ps: "index_put (replicate (length sims) 0) idx (arange_desc k) = Inr ps"
      "length ps = length sims"
      "\<forall>j < length idx. ps ! (idx ! j) = arange_desc k ! j"
      "\<forall>i. i \<notin> set idx \<longrightarrow> ps ! i = replicate (length sims) 0 ! i"
      by auto
    have run: "node_prizes cos_sim topk_indices q_emb node_feat num_nodes topk = Inr ps"
      using topk le ps(1)
      by (simp add: node_prizes_def Let_def sims_def [symmetric] k_def [symmetric]
          idx_def [symmetric] lsims)
    have sel: "\<forall>j < k. ps ! (idx ! j) = of_nat (k - j)"
      using ps(3) len by (simp add: arange_desc_nth)
    have unsel: "\<forall>i < length node_feat. i \<notin> set idx \<longrightarrow> ps ! i = 0"
      using ps(4) lsims by simp
    have mono: "sims ! b \<le> sims ! a"
      if a: "a < length node_feat" and b: "b < length node_feat" and lt: "ps ! b < ps ! a"
      for a b
    proof -
      have nonneg: "0 \<le> ps ! i" if "i < length node_feat" for i
      proof (cases "i \<in> set idx")
        case True
        then obtain j where "j < k" "idx ! j = i" using len by (auto simp: in_set_conv_nth)
        then have "ps ! i = of_nat (k - j)" using sel by auto
        then show ?thesis by simp
      next
        case False
        then show ?thesis using unsel that by simp
      qed
      have "a \<in> set idx"
      proof (rule ccontr)
        assume "a \<notin> set idx"
        then have "ps ! a = 0" using unsel a by simp
        then show False using lt nonneg [OF b] by simp
      qed
      then obtain ja where ja: "ja < k" "idx ! ja = a" using len by (auto simp: in_set_conv_nth)
      show ?thesis
      proof (cases "b \<in> set idx")
        case False
        then show ?thesis using rest b lsims \<open>a \<in> set idx\<close> by simp
      next
        case True
        then obtain jb where jb: "jb < k" "idx ! jb = b" using len by (auto simp: in_set_conv_nth)
        have "(of_nat (k - jb) :: rat) < of_nat (k - ja)" using lt sel ja jb by auto
        then have "ja < jb" using ja jb by simp
        then show ?thesis using srt ja jb len by (auto simp: sorted_wrt_iff_nth_less)
      qed
    qed
    have "length ps = length node_feat" using ps(2) lsims by simp
    moreover have "\<forall>a < length node_feat. \<forall>b < length node_feat.
                  ps ! b < ps ! a \<longrightarrow> sims ! b \<le> sims ! a"
      using mono by simp
    ultimately show ?thesis using run sel unsel by (intro exI [of _ ps] conjI)
  qed
  show ?thesis
    unfolding Let_def sims_def [symmetric] k_def [symmetric] idx_def [symmetric]
    by (intro conjI impI zero pos) simp_all
qed

theorem C3_node_prizes_witness:
  "node_prizes dot (fixed_topk [2, 0]) [1, 0] [[3 / 5, 4 / 5], [0, 1], [1, 0]] 3 0
     = Inr [0, 0, 0]
   \<and> (0::int) < 2 \<and> min (nat 2) 3 \<le> length [[3 / 5, 4 / 5], [0, 1], [1, 0 :: rat]]
   \<and> map (dot [1, 0]) [[3 / 5, 4 / 5], [0, 1], [1, 0]] = [3 / 5, 0, 1]
   \<and> is_topk [3 / 5, 0, 1] 2 [2, 0]
   \<and> node_prizes dot (fixed_topk [2, 0]) [1, 0] [[3 / 5, 4 / 5], [0, 1], [1, 0]] 3 2
     = Inr [1, 0, 2]"
proof -
  have sims: "map (dot [1, 0]) [[3 / 5, 4 / 5], [0, 1], [1, 0]] = [3 / 5, 0, 1]"
    by (simp add: dot_def)
  have tk: "is_topk [3 / 5, 0, 1] 2 [2, 0]"
    by (simp add: is_topk_def less_Suc_eq numeral_3_eq_3)
  have run: "node_prizes dot (fixed_topk [2, 0]) [1, 0] [[3 / 5, 4 / 5], [0, 1], [1, 0]] 3 2
      = Inr [1, 0, 2]"
    by (simp add: node_prizes_def fixed_topk_def arange_desc_def numeral_2_eq_2 numeral_3_eq_3)
  show ?thesis
    using C3_node_prizes [where cos_sim = dot and topk_indices = "fixed_topk [2, 0]"
        and q_emb = "[1, 0]" and node_feat = "[[3 / 5, 4 / 5], [0, 1], [1, 0]]"
        and num_nodes = 3 and topk = 0]
      C3_node_prizes [where cos_sim = dot and topk_indices = "fixed_topk [2, 0]"
        and q_emb = "[1, 0]" and node_feat = "[[3 / 5, 4 / 5], [0, 1], [1, 0]]"
        and num_nodes = 3 and topk = 2]
      tk run sims
    by (simp add: Let_def numeral_3_eq_3)
qed

subsection \<open>C2: edge prizes\<close>

text \<open>
  C2 says that an edge whose similarity is below the \<open>topk_e\<close>-th highest distinct
  similarity gets prize \<open>0\<close>, that tier \<open>k\<close> gets \<open>min ((topk_e - k) / count) (previous - c)\<close>
  with \<open>count\<close> the size of its tie group, and that the values of distinct tiers
  strictly decrease. The code writes the zeros and the tier values into the tensor it
  then compares with the next tier's similarity, so an entry written earlier that equals
  a later tier's similarity is counted and overwritten with that tier. Two runs show it.
  With similarities \<open>0\<close> and \<open>-1\<close> and \<open>topk_e = 1\<close> the edge of similarity \<open>-1\<close> is zeroed,
  then matched by the tier of similarity \<open>0\<close>: both edges get \<open>1/2\<close>, where the claim gives
  \<open>99/100\<close> and \<open>0\<close>. With four edges of similarity \<open>1\<close>, two of similarity \<open>1/2\<close> and
  \<open>topk_e = 2\<close> the first tier gets \<open>2/4 = 1/2\<close>, which the second tier then matches: all six
  edges get \<open>1/6\<close>, where the claim gives \<open>1/2\<close> and \<open>49/100\<close>.
\<close>

theorem C2_edge_prizes_in_place_update:
  "edge_prizes dot [1, 0] [[0, 1], [-1, 0]] 2 1 = Inr [1 / 2, 1 / 2]
   \<and> edge_prizes_spec (map (dot [1, 0]) [[0, 1], [-1, 0]]) 1 = [99 / 100, 0]
   \<and> edge_prizes dot [1, 0, 0, 0]
        [[1, 0, 0, 0], [1, 0, 0, 0], [1, 0, 0, 0], [1, 0, 0, 0],
         [1 / 2, 1 / 2, 1 / 2, 1 / 2], [1 / 2, 1 / 2, 1 / 2, 1 / 2]] 6 2
       = Inr [1 / 6, 1 / 6, 1 / 6, 1 / 6, 1 / 6, 1 / 6]
   \<and> edge_prizes_spec (map (dot [1, 0, 0, 0])
        [[1, 0, 0, 0], [1, 0, 0, 0], [1, 0, 0, 0], [1, 0, 0, 0],
         [1 / 2, 1 / 2, 1 / 2, 1 / 2], [1 / 2, 1 / 2, 1 / 2, 1 / 2]]) 2
       = [1 / 2, 1 / 2, 1 / 2, 1 / 2, 49 / 100, 49 / 100]"
  by (simp add: edge_prizes_def edge_prizes_spec_def unique_def topk_values_def tier_step_def
      c_margin_def dot_def Let_def)

text \<open>
  The two computations differ only through such coincidences. The lemmas below show that
  the values of the specification strictly decrease from tier to tier, and that the code
  computes them whenever no written value equals the similarity of a later tier.
\<close>

lemma tier_step_eq:
  "tier_step K tv k (ps, prev) =
     (let count = length (filter (\<lambda>p. p = tv ! k) ps);
          value = (if count = 0 then prev - c_margin
                   else min (of_nat (K - k) / of_nat count) (prev - c_margin))
      in (map (\<lambda>p. if p = tv ! k then value else p) ps, value))"
proof -
  have 1: "filter id (map (\<lambda>p. p = tv ! k) ps) = map (\<lambda>p. True) (filter (\<lambda>p. p = tv ! k) ps)"
    by (induction ps) auto
  have 2: "map (\<lambda>(p, hit). if hit then v else p) (zip ps (map (\<lambda>p. p = tv ! k) ps))
      = map (\<lambda>p. if p = tv ! k then v else p) ps" for v
    by (induction ps) auto
  show ?thesis
    by (simp add: tier_step_def Let_def 1 2)
qed

lemma length_tier_values_spec: "length (tier_values_spec K k prev cs) = length cs"
  by (induction cs arbitrary: k prev) (simp_all add: Let_def)

lemma tier_values_spec_nth:
  "m < length cs \<Longrightarrow>
     tier_values_spec K k prev cs ! m
       = min (of_nat (K - (k + m)) / of_nat (cs ! m))
           ((if m = 0 then prev else tier_values_spec K k prev cs ! (m - 1)) - c_margin)"
proof (induction cs arbitrary: k prev m)
  case Nil
  then show ?case by simp
next
  case (Cons a cs)
  show ?case
  proof (cases m)
    case 0
    then show ?thesis by (simp add: Let_def)
  next
    case (Suc m')
    then have "m' < length cs" using Cons.prems by simp
    from Cons.IH [OF this, of "Suc k"] show ?thesis
      using Suc by (cases m') (simp_all add: Let_def)
  qed
qed

lemma tier_values_spec_decreasing:
  assumes "Suc m < length cs"
  shows "tier_values_spec K k prev cs ! Suc m \<le> tier_values_spec K k prev cs ! m - c_margin"
  using tier_values_spec_nth [OF assms, of K k prev] by simp

lemma fold_tiers_agree:
  fixes sims tiers vals :: "rat list"
  assumes dt: "distinct tiers" and K: "K = length tiers"
    and sub: "set tiers \<subseteq> set sims"
    and thr: "\<forall>t \<in> set tiers. thr \<le> t"
    and A: "(\<exists>s \<in> set sims. s < thr) \<longrightarrow> 0 \<notin> set tiers"
    and B: "\<forall>j k. j < k \<and> k < K \<longrightarrow> vals ! j \<noteq> tiers ! k"
    and vals: "vals = tier_values_spec K 0 (of_nat K)
                 (map (\<lambda>v. length (filter (\<lambda>s. s = v) sims)) tiers)"
  shows "m \<le> K \<Longrightarrow>
    fold (tier_step K tiers) [0..<m] (map (\<lambda>p. if p < thr then 0 else p) sims, of_nat K)
      = (map (\<lambda>s. if s < thr then 0
                   else if s \<in> set (take m tiers) then the (map_of (zip tiers vals) s)
                   else s) sims,
         if m = 0 then of_nat K else vals ! (m - 1))"
proof (induction m)
  case 0
  show ?case by simp
next
  case (Suc m)
  then have m: "m < K" by simp
  define v where "v = tiers ! m"
  define g where "g = (\<lambda>s. if s < thr then 0
                   else if s \<in> set (take m tiers) then the (map_of (zip tiers vals) s)
                   else s)"
  define prev where "prev = (if m = 0 then of_nat K else vals ! (m - 1))"
  have lv: "length vals = length tiers"
    by (simp add: vals length_tier_values_spec)
  have vin: "v \<in> set tiers" using m K by (simp add: v_def)
  have look: "the (map_of (zip tiers vals) (tiers ! j)) = vals ! j" if "j < K" for j
    using map_of_zip_nth [of tiers vals j] that dt lv K by simp
  have hit: "g s = v \<longleftrightarrow> s = v" if s: "s \<in> set sims" for s
  proof (cases "s < thr")
    case True
    then have "0 \<notin> set tiers" using A s by blast
    then have "0 \<noteq> v" using vin by auto
    moreover have "s \<noteq> v" using True thr vin by auto
    ultimately show ?thesis using True by (simp add: g_def)
  next
    case False
    show ?thesis
    proof (cases "s \<in> set (take m tiers)")
      case True
      then obtain j where j: "j < m" "tiers ! j = s"
        using m K by (auto simp: in_set_conv_nth)
      have "g s = vals ! j" using False True j look [of j] m by (simp add: g_def)
      moreover have "vals ! j \<noteq> v" using B j(1) m by (simp add: v_def)
      moreover have "s \<noteq> v"
        using j m K dt by (auto simp: v_def nth_eq_iff_index_eq)
      ultimately show ?thesis by simp
    next
      case notin: False
      then show ?thesis using False by (simp add: g_def)
    qed
  qed
  have cnt: "length (filter (\<lambda>p. p = v) (map g sims)) = length (filter (\<lambda>s. s = v) sims)"
  proof -
    have "filter ((\<lambda>p. p = v) \<circ> g) sims = filter (\<lambda>s. s = v) sims"
      by (rule filter_cong) (auto simp: hit)
    then show ?thesis by (simp add: filter_map)
  qed
  have pos: "0 < length (filter (\<lambda>s. s = v) sims)"
    using vin sub by (auto simp: filter_empty_conv)
  have mt: "m < length tiers" using m K by simp
  have "vals ! m = min (of_nat (K - (0 + m))
        / of_nat (map (\<lambda>v. length (filter (\<lambda>s. s = v) sims)) tiers ! m))
      ((if m = 0 then of_nat K else vals ! (m - 1)) - c_margin)"
    unfolding vals by (rule tier_values_spec_nth) (simp add: mt)
  then have valeq: "min (of_nat (K - m) / of_nat (length (filter (\<lambda>s. s = v) sims)))
      (prev - c_margin) = vals ! m"
    using mt by (simp add: prev_def v_def)
  have new: "map (\<lambda>p. if p = v then vals ! m else p) (map g sims)
      = map (\<lambda>s. if s < thr then 0
                   else if s \<in> set (take (Suc m) tiers) then the (map_of (zip tiers vals) s)
                   else s) sims"
  proof (simp only: map_map comp_def, rule map_cong [OF refl])
    fix s assume s: "s \<in> set sims"
    have tk: "set (take (Suc m) tiers) = insert v (set (take m tiers))"
      using m K by (simp add: take_Suc_conv_app_nth v_def)
    show "(if g s = v then vals ! m else g s)
        = (if s < thr then 0
           else if s \<in> set (take (Suc m) tiers) then the (map_of (zip tiers vals) s) else s)"
    proof (cases "s = v")
      case True
      then have "\<not> s < thr" using thr vin by auto
      then show ?thesis using True hit [OF s] look [OF m] by (simp add: tk v_def)
    next
      case False
      then show ?thesis using hit [OF s] by (simp add: tk g_def)
    qed
  qed
  have "fold (tier_step K tiers) [0..<Suc m] (map (\<lambda>p. if p < thr then 0 else p) sims, of_nat K)
      = tier_step K tiers m (map g sims, prev)"
    using Suc by (simp add: g_def prev_def)
  also have "\<dots> = (map (\<lambda>p. if p = v then vals ! m else p) (map g sims), vals ! m)"
    unfolding tier_step_eq Let_def v_def [symmetric] cnt using pos valeq by simp
  finally show ?case unfolding new by simp
qed

lemma descending_last_le:
  fixes xs :: "rat list"
  assumes "sorted_wrt (\<lambda>x y. y < x) xs" and "t \<in> set xs"
  shows "last xs \<le> t"
proof -
  from assms(2) obtain i where i: "i < length xs" "xs ! i = t" by (auto simp: in_set_conv_nth)
  then have ne: "xs \<noteq> []" by auto
  show ?thesis
  proof (cases "i = length xs - 1")
    case True
    then show ?thesis using i ne by (simp add: last_conv_nth)
  next
    case False
    then have "i < length xs - 1" using i by simp
    moreover have "length xs - 1 < length xs" using ne by simp
    ultimately have "xs ! (length xs - 1) < xs ! i"
      using sorted_wrt_nth_less [OF assms(1), of i "length xs - 1"] by blast
    then show ?thesis using i ne by (simp add: last_conv_nth)
  qed
qed

lemma top_values_facts:
  fixes sims :: "rat list"
  assumes ne: "sims \<noteq> []" and k: "0 < k"
  defines "K \<equiv> min k (length (unique sims))"
  defines "tiers \<equiv> topk_values (unique sims) K"
  shows "length tiers = K" and "0 < K" and "distinct tiers" and "set tiers \<subseteq> set sims"
    and "\<forall>t \<in> set tiers. last tiers \<le> t"
    and "\<forall>s \<in> set sims. s \<notin> set tiers \<longrightarrow> s < last tiers"
proof -
  define u where "u = unique sims"
  have su: "sorted u" and du: "distinct u" and setu: "set u = set sims"
    by (simp_all add: u_def unique_def)
  have sortu: "sort u = u" using su by (simp add: sorted_sort_id)
  have tiers: "tiers = take K (rev u)"
    by (simp add: tiers_def topk_values_def u_def [symmetric] sortu)
  have "u \<noteq> []" using ne setu by auto
  then show K0: "0 < K" using k by (simp add: K_def u_def [symmetric])
  show len: "length tiers = K" by (simp add: tiers K_def u_def [symmetric])
  show "distinct tiers" using du by (simp add: tiers)
  show "set tiers \<subseteq> set sims"
    using set_take_subset [of K "rev u"] setu by (simp add: tiers)
  have desc: "sorted_wrt (\<lambda>x y. y < x) (rev u)"
    using su du by (simp add: sorted_wrt_rev strict_sorted_iff)
  then have "sorted_wrt (\<lambda>x y. y < x) (take K (rev u) @ drop K (rev u))" by simp
  then have parts: "sorted_wrt (\<lambda>x y. y < x) tiers"
    "\<forall>x \<in> set tiers. \<forall>y \<in> set (drop K (rev u)). y < x"
    unfolding sorted_wrt_append tiers by auto
  show "\<forall>t \<in> set tiers. last tiers \<le> t"
    using descending_last_le [OF parts(1)] by blast
  have "tiers \<noteq> []" using len K0 by auto
  then have lastin: "last tiers \<in> set tiers" by simp
  show "\<forall>s \<in> set sims. s \<notin> set tiers \<longrightarrow> s < last tiers"
  proof (intro ballI impI)
    fix s assume "s \<in> set sims" "s \<notin> set tiers"
    then have "s \<in> set (take K (rev u) @ drop K (rev u))" using setu by simp
    then have "s \<in> set (drop K (rev u))" using \<open>s \<notin> set tiers\<close> unfolding tiers set_append by blast
    then show "s < last tiers" using parts(2) lastin by blast
  qed
qed

text \<open>
  Where no value written into the tensor (the zero of an edge below the threshold, the
  prize of an earlier tier) equals the similarity of a tier still to come, the code
  computes the prizes of the specification.
\<close>

lemma edge_prizes_agree_without_aliasing:
  fixes cos_sim :: "'v \<Rightarrow> 'v \<Rightarrow> rat"
  assumes pos: "0 < topk_e" and ne: "e_attr \<noteq> []"
    and A: "(\<exists>s \<in> set (map (cos_sim q_emb) e_attr).
               s < last (topk_values (unique (map (cos_sim q_emb) e_attr))
                          (min (nat topk_e) (length (unique (map (cos_sim q_emb) e_attr))))))
            \<longrightarrow> 0 \<notin> set (topk_values (unique (map (cos_sim q_emb) e_attr))
                          (min (nat topk_e) (length (unique (map (cos_sim q_emb) e_attr)))))"
    and B: "\<forall>j k. j < k \<and> k < min (nat topk_e) (length (unique (map (cos_sim q_emb) e_attr))) \<longrightarrow>
              tier_values_spec (min (nat topk_e) (length (unique (map (cos_sim q_emb) e_attr)))) 0
                (of_nat (min (nat topk_e) (length (unique (map (cos_sim q_emb) e_attr)))))
                (map (\<lambda>v. length (filter (\<lambda>s. s = v) (map (cos_sim q_emb) e_attr)))
                   (topk_values (unique (map (cos_sim q_emb) e_attr))
                      (min (nat topk_e) (length (unique (map (cos_sim q_emb) e_attr)))))) ! j
              \<noteq> topk_values (unique (map (cos_sim q_emb) e_attr))
                    (min (nat topk_e) (length (unique (map (cos_sim q_emb) e_attr)))) ! k"
  shows "edge_prizes cos_sim q_emb e_attr num_edges topk_e
           = Inr (edge_prizes_spec (map (cos_sim q_emb) e_attr) (nat topk_e))"
proof -
  define sims where "sims = map (cos_sim q_emb) e_attr"
  define K where "K = min (nat topk_e) (length (unique sims))"
  define tiers where "tiers = topk_values (unique sims) K"
  define vals where "vals = tier_values_spec K 0 (of_nat K)
                 (map (\<lambda>v. length (filter (\<lambda>s. s = v) sims)) tiers)"
  have sne: "sims \<noteq> []" using ne by (simp add: sims_def)
  have k: "0 < nat topk_e" using pos by simp
  note f = top_values_facts [OF sne k, folded K_def tiers_def]
  have tne: "tiers \<noteq> []" using f(1,2) by auto
  have lv: "length vals = length tiers" by (simp add: vals_def length_tier_values_spec)
  have run: "fold (tier_step K tiers) [0..<K]
        (map (\<lambda>p. if p < last tiers then 0 else p) sims, of_nat K)
      = (map (\<lambda>s. if s < last tiers then 0
                   else if s \<in> set (take K tiers) then the (map_of (zip tiers vals) s)
                   else s) sims,
         if K = 0 then of_nat K else vals ! (K - 1))"
  proof (rule fold_tiers_agree [OF f(3) f(1) [symmetric] f(4) f(5) _ _ vals_def])
    show "(\<exists>s \<in> set sims. s < last tiers) \<longrightarrow> 0 \<notin> set tiers"
      using A by (simp add: sims_def K_def tiers_def)
    show "\<forall>j k. j < k \<and> k < K \<longrightarrow> vals ! j \<noteq> tiers ! k"
      using B by (simp add: sims_def K_def tiers_def vals_def)
    show "K \<le> K" by simp
  qed
  have final: "map (\<lambda>s. if s < last tiers then 0
                   else if s \<in> set (take K tiers) then the (map_of (zip tiers vals) s)
                   else s) sims
      = map (\<lambda>s. case map_of (zip tiers vals) s of None \<Rightarrow> 0 | Some v \<Rightarrow> v) sims"
  proof (rule map_cong [OF refl])
    fix s assume s: "s \<in> set sims"
    show "(if s < last tiers then 0
           else if s \<in> set (take K tiers) then the (map_of (zip tiers vals) s) else s)
        = (case map_of (zip tiers vals) s of None \<Rightarrow> 0 | Some v \<Rightarrow> v)"
    proof (cases "s \<in> set tiers")
      case True
      then have "\<not> s < last tiers" using f(5) by auto
      moreover from True obtain v where "map_of (zip tiers vals) s = Some v"
        using lv by (metis map_of_zip_is_None not_None_eq)
      ultimately show ?thesis using True f(1) by simp
    next
      case False
      then have "s < last tiers" using f(6) s by blast
      moreover have "map_of (zip tiers vals) s = None"
        using False lv by (simp add: map_of_zip_is_None)
      ultimately show ?thesis by simp
    qed
  qed
  have code: "edge_prizes cos_sim q_emb e_attr num_edges topk_e
      = Inr (fst (fold (tier_step K tiers) [0..<K]
                (map (\<lambda>p. if p < last tiers then 0 else p) sims, of_nat K)))"
    using pos tne
    by (simp add: edge_prizes_def Let_def sims_def [symmetric] K_def [symmetric]
        tiers_def [symmetric])
  have spec: "edge_prizes_spec sims (nat topk_e)
      = map (\<lambda>s. case map_of (zip tiers vals) s of None \<Rightarrow> 0 | Some v \<Rightarrow> v) sims"
    by (simp add: edge_prizes_spec_def Let_def K_def [symmetric] tiers_def [symmetric]
        vals_def [symmetric])
  show ?thesis
    unfolding code run spec sims_def [symmetric] by (simp add: final)
qed

lemma edge_prizes_agree_instance:
  "edge_prizes dot [1, 0] [[4 / 5, 3 / 5], [4 / 5, 3 / 5], [3 / 5, 4 / 5], [5 / 13, 12 / 13], [0, 1]] 5 3
     = Inr (edge_prizes_spec [4 / 5, 4 / 5, 3 / 5, 5 / 13, 0] 3)
   \<and> edge_prizes_spec [4 / 5, 4 / 5, 3 / 5, 5 / 13, 0] 3 = [3 / 2, 3 / 2, 149 / 100, 1, 0]"
proof -
  have sims: "map (dot [1, 0]) [[4 / 5, 3 / 5], [4 / 5, 3 / 5], [3 / 5, 4 / 5], [5 / 13, 12 / 13], [0, 1]]
      = [4 / 5, 4 / 5, 3 / 5, 5 / 13, 0]"
    by (simp add: dot_def)
  have u: "unique [4 / 5, 4 / 5, 3 / 5, 5 / 13, 0 :: rat] = [0, 5 / 13, 3 / 5, 4 / 5]"
    by (simp add: unique_def)
  have t: "topk_values [0, 5 / 13, 3 / 5, 4 / 5 :: rat] 3 = [4 / 5, 3 / 5, 5 / 13]"
    by (simp add: topk_values_def)
  have v: "tier_values_spec 3 0 3 [2, 1, 1] = [3 / 2, 149 / 100, 1]"
    by (simp add: c_margin_def Let_def)
  have k: "min (nat 3) (length [0, 5 / 13, 3 / 5, 4 / 5 :: rat]) = 3" by simp
  have B: "\<forall>j k. j < k \<and> k < 3 \<longrightarrow> [3 / 2, 149 / 100, 1 :: rat] ! j \<noteq> [4 / 5, 3 / 5, 5 / 13] ! k"
    by (auto simp: less_Suc_eq numeral_3_eq_3)
  have "edge_prizes dot [1, 0] [[4 / 5, 3 / 5], [4 / 5, 3 / 5], [3 / 5, 4 / 5], [5 / 13, 12 / 13], [0, 1]] 5 3
     = Inr (edge_prizes_spec (map (dot [1, 0])
         [[4 / 5, 3 / 5], [4 / 5, 3 / 5], [3 / 5, 4 / 5], [5 / 13, 12 / 13], [0, 1]]) (nat 3))"
    using edge_prizes_agree_without_aliasing [where cos_sim = dot and q_emb = "[1, 0]"
        and e_attr = "[[4 / 5, 3 / 5], [4 / 5, 3 / 5], [3 / 5, 4 / 5], [5 / 13, 12 / 13], [0, 1]]"
        and topk_e = 3 and num_edges = 5]
    unfolding sims u k t using B by (simp add: c_margin_def Let_def)
  moreover have "edge_prizes_spec [4 / 5, 4 / 5, 3 / 5, 5 / 13, 0] 3 = [3 / 2, 3 / 2, 149 / 100, 1, 0]"
    by code_simp
  ultimately show ?thesis unfolding sims by simp
qed

subsection \<open>Reconstruction: what is returned, and that it returns\<close>

lemma lookup_all_eq:
  "lookup_all m ks =
     (if \<forall>k \<in> set ks. m k \<noteq> None then Inr (map (\<lambda>k. the (m k)) ks) else Inl KeyError)"
  by (induction ks) (auto split: option.splits sum.splits)

lemma lookup_all_Inr:
  "lookup_all m ks = Inr vs \<longleftrightarrow> (\<forall>k \<in> set ks. m k \<noteq> None) \<and> vs = map (\<lambda>k. the (m k)) ks"
  by (auto simp: lookup_all_eq)

lemma bind_Inr_iff:
  "(case m of Inl e \<Rightarrow> Inl e | Inr v \<Rightarrow> f v) = Inr r \<longleftrightarrow> (\<exists>v. m = Inr v \<and> f v = Inr r)"
  by (cases m) auto

lemma take_rows_Inr:
  "take_rows rows idx = Inr ys \<longleftrightarrow> (\<forall>i \<in> set idx. i < length rows) \<and> ys = map (\<lambda>i. rows ! i) idx"
  by (auto simp: take_rows_def list_all_iff)

lemma map_of_zip_upt_Some:
  "map_of (zip ns [0..<length ns]) k = Some i \<Longrightarrow> i < length ns \<and> ns ! i = k"
  by (auto dest!: map_of_SomeD simp: set_zip)

lemma map_of_zip_upt_dom:
  "k \<in> set ns \<Longrightarrow> map_of (zip ns [0..<length ns]) k \<noteq> None"
  by simp

lemma set_unique: "set (unique xs) = set xs"
  by (simp add: unique_def)

lemma sorted_unique: "sorted (unique xs)"
  by (simp add: unique_def)

lemma distinct_unique: "distinct (unique xs)"
  by (simp add: unique_def)

lemma unique_sorted_list_of_set: "unique xs = sorted_list_of_set (set xs)"
  by (simp add: unique_def sorted_list_of_set_sort_remdups)

lemma virtual_branch:
  "(if 0 < length vv
    then (case lookup_all mn vv of Inl err \<Rightarrow> Inl err | Inr nve \<Rightarrow> Inr (se @ nve))
    else Inr se)
   = (case lookup_all mn vv of Inl err \<Rightarrow> Inl err | Inr nve \<Rightarrow> Inr (se @ nve))"
  by (cases vv) simp_all

text \<open>The steps of a reconstruction that returned.\<close>

lemma reconstruct_steps:
  assumes "reconstruct graph textual_nodes textual_edges red vertices edges = Inr r"
  shows "\<exists>se nve ei ns n e x ea src dst.
      lookup_all (mapping_e red) (filter (\<lambda>e. e < length (edge_list red)) edges) = Inr se
    \<and> lookup_all (mapping_n red) (filter (\<lambda>v. data_num_nodes graph \<le> v) vertices) = Inr nve
    \<and> take_rows (data_edge_index graph) (se @ nve) = Inr ei
    \<and> ns = unique (filter (\<lambda>v. v < data_num_nodes graph) vertices @ map fst ei @ map snd ei)
    \<and> take_rows textual_nodes ns = Inr n
    \<and> take_rows textual_edges (se @ nve) = Inr e
    \<and> take_rows (data_x graph) ns = Inr x
    \<and> take_rows (data_edge_attr graph) (se @ nve) = Inr ea
    \<and> lookup_all (map_of (zip ns [0..<length ns])) (map fst ei) = Inr src
    \<and> lookup_all (map_of (zip ns [0..<length ns])) (map snd ei) = Inr dst
    \<and> r = \<lparr>r_selected_nodes = filter (\<lambda>v. v < data_num_nodes graph) vertices,
           r_new_selected_edges = se @ nve,
           r_new_selected_nodes = ns,
           r_data = \<lparr>data_x = x, data_edge_index = zip src dst, data_edge_attr = ea,
                      data_num_nodes = length (filter (\<lambda>v. v < data_num_nodes graph) vertices)\<rparr>,
           r_desc = nodes_to_csv n @ [CHR 0x0A] @ edges_to_csv e\<rparr>"
  using assms unfolding reconstruct_def Let_def virtual_branch bind_Inr_iff
  apply (elim exE conjE)
  apply (simp only: sum.inject)
  apply hypsubst
  apply (intro exI conjI; (assumption | rule refl))
  done


lemma reconstruct_InrD:
  assumes "reconstruct graph textual_nodes textual_edges red vertices edges = Inr r"
  shows "r_selected_nodes r = filter (\<lambda>v. v < data_num_nodes graph) vertices"
    and "r_new_selected_edges r =
           map (\<lambda>e. the (mapping_e red e)) (filter (\<lambda>e. e < length (edge_list red)) edges)
           @ map (\<lambda>v. the (mapping_n red v)) (filter (\<lambda>v. data_num_nodes graph \<le> v) vertices)"
    and "\<forall>i \<in> set (r_new_selected_edges r). i < length (data_edge_index graph)"
    and "r_new_selected_nodes r =
           unique (r_selected_nodes r
             @ map (\<lambda>i. fst (data_edge_index graph ! i)) (r_new_selected_edges r)
             @ map (\<lambda>i. snd (data_edge_index graph ! i)) (r_new_selected_edges r))"
    and "data_x (r_data r) = map (\<lambda>i. data_x graph ! i) (r_new_selected_nodes r)"
    and "data_edge_attr (r_data r) = map (\<lambda>i. data_edge_attr graph ! i) (r_new_selected_edges r)"
    and "data_num_nodes (r_data r) = length (r_selected_nodes r)"
    and "r_desc r = nodes_to_csv (map (\<lambda>i. textual_nodes ! i) (r_new_selected_nodes r))
           @ [CHR 0x0A] @ edges_to_csv (map (\<lambda>i. textual_edges ! i) (r_new_selected_edges r))"
    and "data_edge_index (r_data r) =
           map (\<lambda>i. (the (map_of (zip (r_new_selected_nodes r) [0..<length (r_new_selected_nodes r)])
                              (fst (data_edge_index graph ! i))),
                      the (map_of (zip (r_new_selected_nodes r) [0..<length (r_new_selected_nodes r)])
                              (snd (data_edge_index graph ! i)))))
               (r_new_selected_edges r)"
proof -
  from reconstruct_steps [OF assms] obtain se nve ei ns n e x ea src dst where
      se: "lookup_all (mapping_e red) (filter (\<lambda>e. e < length (edge_list red)) edges) = Inr se"
    and nve: "lookup_all (mapping_n red) (filter (\<lambda>v. data_num_nodes graph \<le> v) vertices) = Inr nve"
    and ei: "take_rows (data_edge_index graph) (se @ nve) = Inr ei"
    and ns: "ns = unique (filter (\<lambda>v. v < data_num_nodes graph) vertices @ map fst ei @ map snd ei)"
    and n: "take_rows textual_nodes ns = Inr n"
    and e: "take_rows textual_edges (se @ nve) = Inr e"
    and x: "take_rows (data_x graph) ns = Inr x"
    and ea: "take_rows (data_edge_attr graph) (se @ nve) = Inr ea"
    and src: "lookup_all (map_of (zip ns [0..<length ns])) (map fst ei) = Inr src"
    and dst: "lookup_all (map_of (zip ns [0..<length ns])) (map snd ei) = Inr dst"
    and r: "r = \<lparr>r_selected_nodes = filter (\<lambda>v. v < data_num_nodes graph) vertices,
           r_new_selected_edges = se @ nve,
           r_new_selected_nodes = ns,
           r_data = \<lparr>data_x = x, data_edge_index = zip src dst, data_edge_attr = ea,
                      data_num_nodes = length (filter (\<lambda>v. v < data_num_nodes graph) vertices)\<rparr>,
           r_desc = nodes_to_csv n @ [CHR 0x0A] @ edges_to_csv e\<rparr>"
    by blast
  have ei': "ei = map (\<lambda>i. data_edge_index graph ! i) (se @ nve)"
    and rng: "\<forall>i \<in> set (se @ nve). i < length (data_edge_index graph)"
    using ei by (simp_all add: take_rows_Inr)
  show "r_selected_nodes r = filter (\<lambda>v. v < data_num_nodes graph) vertices"
    by (simp add: r)
  show "r_new_selected_edges r =
           map (\<lambda>e. the (mapping_e red e)) (filter (\<lambda>e. e < length (edge_list red)) edges)
           @ map (\<lambda>v. the (mapping_n red v)) (filter (\<lambda>v. data_num_nodes graph \<le> v) vertices)"
    using se nve by (simp add: r lookup_all_Inr)
  show "\<forall>i \<in> set (r_new_selected_edges r). i < length (data_edge_index graph)"
    using rng by (simp add: r)
  show "r_new_selected_nodes r =
           unique (r_selected_nodes r
             @ map (\<lambda>i. fst (data_edge_index graph ! i)) (r_new_selected_edges r)
             @ map (\<lambda>i. snd (data_edge_index graph ! i)) (r_new_selected_edges r))"
    by (simp add: r ns ei' comp_def)
  show "data_x (r_data r) = map (\<lambda>i. data_x graph ! i) (r_new_selected_nodes r)"
    using x by (simp add: r take_rows_Inr)
  show "data_edge_attr (r_data r) = map (\<lambda>i. data_edge_attr graph ! i) (r_new_selected_edges r)"
    using ea by (simp add: r take_rows_Inr)
  show "data_num_nodes (r_data r) = length (r_selected_nodes r)"
    by (simp add: r)
  show "r_desc r = nodes_to_csv (map (\<lambda>i. textual_nodes ! i) (r_new_selected_nodes r))
           @ [CHR 0x0A] @ edges_to_csv (map (\<lambda>i. textual_edges ! i) (r_new_selected_edges r))"
    using n e by (simp add: r take_rows_Inr)
  have "zip src dst = map (\<lambda>i. (the (map_of (zip ns [0..<length ns]) (fst (data_edge_index graph ! i))),
                      the (map_of (zip ns [0..<length ns]) (snd (data_edge_index graph ! i)))))
               (se @ nve)"
    using src dst unfolding lookup_all_Inr ei'
    by (simp only: map_map comp_def zip_map_map) (simp add: zip_same_conv_map)
  then show "data_edge_index (r_data r) =
           map (\<lambda>i. (the (map_of (zip (r_new_selected_nodes r) [0..<length (r_new_selected_nodes r)])
                              (fst (data_edge_index graph ! i))),
                      the (map_of (zip (r_new_selected_nodes r) [0..<length (r_new_selected_nodes r)])
                              (snd (data_edge_index graph ! i)))))
               (r_new_selected_edges r)"
    by (simp add: r)
qed

lemma well_formed_endpoints:
  "well_formed graph textual_nodes textual_edges \<Longrightarrow> i < length (data_edge_index graph) \<Longrightarrow>
     fst (data_edge_index graph ! i) < data_num_nodes graph
     \<and> snd (data_edge_index graph ! i) < data_num_nodes graph"
  by (cases "data_edge_index graph ! i") (auto simp: well_formed_def list_all_length)

lemma reconstruct_returns:
  assumes wf: "well_formed graph textual_nodes textual_edges"
    and me: "\<forall>e \<in> set edges. e < length (edge_list red) \<longrightarrow>
               (\<exists>i < length (data_edge_index graph). mapping_e red e = Some i)"
    and mn: "\<forall>v \<in> set vertices. data_num_nodes graph \<le> v \<longrightarrow>
               (\<exists>i < length (data_edge_index graph). mapping_n red v = Some i)"
  shows "\<exists>r. reconstruct graph textual_nodes textual_edges red vertices edges = Inr r"
proof -
  define se where "se = map (\<lambda>e. the (mapping_e red e)) (filter (\<lambda>e. e < length (edge_list red)) edges)"
  define nve where "nve = map (\<lambda>v. the (mapping_n red v)) (filter (\<lambda>v. data_num_nodes graph \<le> v) vertices)"
  define ei where "ei = map (\<lambda>i. data_edge_index graph ! i) (se @ nve)"
  define ns where "ns = unique (filter (\<lambda>v. v < data_num_nodes graph) vertices @ map fst ei @ map snd ei)"
  have s1: "lookup_all (mapping_e red) (filter (\<lambda>e. e < length (edge_list red)) edges) = Inr se"
    using me by (auto simp: lookup_all_eq se_def)
  have s2: "lookup_all (mapping_n red) (filter (\<lambda>v. data_num_nodes graph \<le> v) vertices) = Inr nve"
    using mn by (auto simp: lookup_all_eq nve_def)
  have rng: "\<forall>i \<in> set (se @ nve). i < length (data_edge_index graph)"
    using me mn by (auto simp: se_def nve_def)
  have s3: "take_rows (data_edge_index graph) (se @ nve) = Inr ei"
    using rng by (simp add: take_rows_Inr ei_def)
  have ends: "\<forall>p \<in> set ei. fst p < data_num_nodes graph \<and> snd p < data_num_nodes graph"
    using well_formed_endpoints [OF wf] rng by (auto simp: ei_def)
  have nsr: "\<forall>i \<in> set ns. i < data_num_nodes graph"
    using ends by (auto simp: ns_def set_unique)
  have s4: "take_rows textual_nodes ns = Inr (map (\<lambda>i. textual_nodes ! i) ns)"
    using nsr wf by (simp add: take_rows_Inr well_formed_def)
  have s5: "take_rows textual_edges (se @ nve) = Inr (map (\<lambda>i. textual_edges ! i) (se @ nve))"
    using rng wf by (simp add: take_rows_Inr well_formed_def)
  have s6: "take_rows (data_x graph) ns = Inr (map (\<lambda>i. data_x graph ! i) ns)"
    using nsr wf by (simp add: take_rows_Inr well_formed_def)
  have s7: "take_rows (data_edge_attr graph) (se @ nve) = Inr (map (\<lambda>i. data_edge_attr graph ! i) (se @ nve))"
    using rng wf by (simp add: take_rows_Inr well_formed_def)
  have "\<forall>k \<in> set (map fst ei). k \<in> set ns" "\<forall>k \<in> set (map snd ei). k \<in> set ns"
    by (auto simp: ns_def set_unique)
  then have s8: "lookup_all (map_of (zip ns [0..<length ns])) (map fst ei)
        = Inr (map (\<lambda>k. the (map_of (zip ns [0..<length ns]) k)) (map fst ei))"
    and s9: "lookup_all (map_of (zip ns [0..<length ns])) (map snd ei)
        = Inr (map (\<lambda>k. the (map_of (zip ns [0..<length ns]) k)) (map snd ei))"
    unfolding lookup_all_Inr by (simp_all add: map_of_zip_upt_dom)
  show ?thesis
    unfolding reconstruct_def Let_def virtual_branch
    by (simp only: s1 s2 s3 s4 s5 s6 s7 s8 s9 ns_def [symmetric] sum.case) blast
qed

lemma length_tier_step: "length (fst (tier_step K tv k s)) = length (fst s)"
  by (cases s) (simp add: tier_step_def Let_def)

lemma length_fold_tier_step: "length (fst (fold (tier_step K tv) ks s)) = length (fst s)"
  by (induction ks arbitrary: s) (simp_all add: length_tier_step)

lemma edge_prizes_returns:
  assumes "0 < topk_e \<longrightarrow> e_attr \<noteq> []"
  shows "\<exists>ps. edge_prizes cos_sim q_emb e_attr num_edges topk_e = Inr ps
           \<and> length ps = (if 0 < topk_e then length e_attr else num_edges)"
proof (cases "0 < topk_e")
  case False
  then show ?thesis by (simp add: edge_prizes_def)
next
  case True
  define sims where "sims = map (cos_sim q_emb) e_attr"
  have "sims \<noteq> []" using assms True by (simp add: sims_def)
  then have "set (unique sims) \<noteq> {}" by (simp add: set_unique)
  then have "unique sims \<noteq> []" by auto
  then have "0 < length (topk_values (unique sims) (min (nat topk_e) (length (unique sims))))"
    using True by (simp add: topk_values_def)
  then have "topk_values (unique sims) (min (nat topk_e) (length (unique sims))) \<noteq> []"
    by (simp del: length_greater_0_conv add: length_greater_0_conv [symmetric])
  then show ?thesis
    using True
    by (simp add: edge_prizes_def Let_def sims_def [symmetric] length_fold_tier_step)
       (simp add: sims_def)
qed

lemma node_prizes_returns:
  assumes "0 < topk \<longrightarrow>
      is_topk (map (cos_sim q_emb) node_feat) (min (nat topk) num_nodes)
        (topk_indices (map (cos_sim q_emb) node_feat) (min (nat topk) num_nodes))"
    and "length node_feat = num_nodes"
  shows "\<exists>ps. node_prizes cos_sim topk_indices q_emb node_feat num_nodes topk = Inr ps
           \<and> length ps = num_nodes"
proof (cases "0 < topk")
  case False
  then show ?thesis by (simp add: node_prizes_def)
next
  case True
  define sims where "sims = map (cos_sim q_emb) node_feat"
  define k where "k = min (nat topk) num_nodes"
  define idx where "idx = topk_indices sims k"
  have tk: "is_topk sims k idx" using assms(1) True by (simp add: sims_def k_def idx_def)
  have "\<exists>ys. index_put (replicate (length sims) 0) idx (arange_desc k) = Inr ys
        \<and> length ys = length (replicate (length sims) (0::rat))
        \<and> (\<forall>j < length idx. ys ! (idx ! j) = arange_desc k ! j)
        \<and> (\<forall>i. i \<notin> set idx \<longrightarrow> ys ! i = replicate (length sims) 0 ! i)"
    using tk by (intro index_put_distinct) (simp_all add: length_arange_desc is_topk_def)
  then obtain ps where "index_put (replicate (length sims) 0) idx (arange_desc k) = Inr ps"
    "length ps = length sims" by auto
  then show ?thesis
    using True assms(2)
    by (simp add: node_prizes_def Let_def sims_def [symmetric] k_def [symmetric]
        idx_def [symmetric]) (simp add: sims_def k_def)
qed

lemma pcst_path_InrD:
  assumes "pcst_path cos_sim topk_indices pcst_fast graph q_emb textual_nodes textual_edges
             topk topk_e cost_e = Inr r"
  shows "\<exists>red es ps cs.
           reconstruct graph textual_nodes textual_edges red
             (fst (pcst_fast es ps cs (- 1) 1 ''gw'' 0))
             (snd (pcst_fast es ps cs (- 1) 1 ''gw'' 0)) = Inr r"
  using assms unfolding pcst_path_def Let_def case_prod_unfold bind_Inr_iff
  by blast

lemma reduction_of_mapping_e:
  "p < length (edge_list (reduction_of e_idx e_prizes n c)) \<Longrightarrow>
     \<exists>i < length e_idx. mapping_e (reduction_of e_idx e_prizes n c) p = Some i"
proof -
  assume p: "p < length (edge_list (reduction_of e_idx e_prizes n c))"
  then have "p < length (kept_edges e_prizes c (length e_idx))"
    by (simp add: reduction_of_def Let_def)
  moreover from this have "kept_edges e_prizes c (length e_idx) ! p
      \<in> set (kept_edges e_prizes c (length e_idx))" by (rule nth_mem)
  then have "kept_edges e_prizes c (length e_idx) ! p < length e_idx"
    by (simp add: kept_edges_def)
  ultimately show ?thesis by (simp add: reduction_of_def Let_def)
qed

lemma reduction_of_mapping_n:
  "n \<le> v \<Longrightarrow> v < n + length (virtual_n_prizes (reduction_of e_idx e_prizes n c)) \<Longrightarrow>
     \<exists>i < length e_idx. mapping_n (reduction_of e_idx e_prizes n c) v = Some i"
proof -
  assume v: "n \<le> v" "v < n + length (virtual_n_prizes (reduction_of e_idx e_prizes n c))"
  then have lt: "v - n < length (promoted_edges e_prizes c (length e_idx))"
    by (simp add: reduction_of_def Let_def)
  then have "promoted_edges e_prizes c (length e_idx) ! (v - n)
      \<in> set (promoted_edges e_prizes c (length e_idx))" by (rule nth_mem)
  then have "promoted_edges e_prizes c (length e_idx) ! (v - n) < length e_idx"
    by (simp add: promoted_edges_def)
  then show ?thesis using v lt by (simp add: reduction_of_def Let_def)
qed

lemma pcst_path_returns:
  assumes wf: "well_formed graph textual_nodes textual_edges"
    and ne: "textual_edges \<noteq> []"
    and solver: "solver_in_range pcst_fast"
    and tk: "0 < topk \<longrightarrow>
      is_topk (map (cos_sim q_emb) (data_x graph)) (min (nat topk) (data_num_nodes graph))
        (topk_indices (map (cos_sim q_emb) (data_x graph)) (min (nat topk) (data_num_nodes graph)))"
  shows "\<exists>r. pcst_path cos_sim topk_indices pcst_fast graph q_emb textual_nodes textual_edges
             topk topk_e cost_e = Inr r"
proof -
  have lens: "length (data_x graph) = data_num_nodes graph"
    "length (data_edge_attr graph) = length (data_edge_index graph)"
    "data_edge_attr graph \<noteq> []"
    using wf ne by (auto simp: well_formed_def)
  obtain n_prizes where np: "node_prizes cos_sim topk_indices q_emb (data_x graph)
      (data_num_nodes graph) topk = Inr n_prizes" "length n_prizes = data_num_nodes graph"
    using node_prizes_returns [where cos_sim = cos_sim and q_emb = q_emb
        and node_feat = "data_x graph" and topk_indices = topk_indices and topk = topk
        and num_nodes = "data_num_nodes graph"] tk lens(1) by blast
  obtain e_prizes where ep: "edge_prizes cos_sim q_emb (data_edge_attr graph)
      (length (data_edge_index graph)) topk_e = Inr e_prizes"
      "length e_prizes = length (data_edge_index graph)"
    using edge_prizes_returns [of topk_e "data_edge_attr graph" cos_sim q_emb
        "length (data_edge_index graph)"] lens by auto
  define red where "red = reduction_of (data_edge_index graph) e_prizes (data_num_nodes graph) cost_e"
  have rd: "virtual_node_reduction (data_edge_index graph) e_prizes (data_num_nodes graph) cost_e
      = Inr red"
    unfolding virtual_node_reduction_def red_def
    using ep(2) by (intro reduce_loop_characterised) simp
  define edges0 where "edges0 = (if 0 < length (virtual_costs red)
      then edge_list red @ virtual_edges red else edge_list red)"
  define costs0 where "costs0 = (if 0 < length (virtual_costs red)
      then cost_list red @ virtual_costs red else cost_list red)"
  define ans where "ans = pcst_fast edges0 (n_prizes @ virtual_n_prizes red) costs0 (- 1) 1 ''gw'' 0"
  have vr: "\<forall>v \<in> set (fst ans). v < data_num_nodes graph + length (virtual_n_prizes red)"
    using solver np(2) unfolding solver_in_range_def ans_def list_all_iff
    by (metis length_append)
  have "\<exists>r. reconstruct graph textual_nodes textual_edges red (fst ans) (snd ans) = Inr r"
  proof (rule reconstruct_returns [OF wf])
    show "\<forall>e \<in> set (snd ans). e < length (edge_list red) \<longrightarrow>
               (\<exists>i < length (data_edge_index graph). mapping_e red e = Some i)"
      unfolding red_def using reduction_of_mapping_e by blast
    show "\<forall>v \<in> set (fst ans). data_num_nodes graph \<le> v \<longrightarrow>
               (\<exists>i < length (data_edge_index graph). mapping_n red v = Some i)"
      using vr unfolding red_def using reduction_of_mapping_n by blast
  qed
  moreover have "pcst_path cos_sim topk_indices pcst_fast graph q_emb textual_nodes
      textual_edges topk topk_e cost_e
      = reconstruct graph textual_nodes textual_edges red (fst ans) (snd ans)"
    by (simp only: pcst_path_def Let_def np(1) ep(1) rd sum.case case_prod_unfold
        edges0_def costs0_def ans_def)
  ultimately show ?thesis by simp
qed

subsection \<open>C7: degenerate graphs bypass the solver\<close>

text \<open>
  C7. When the node table or the edge table is empty, which for an input as \<open>process\<close>
  builds it is when the graph has zero nodes or zero edges, the function returns the
  input graph unchanged (same \<open>x\<close>, \<open>edge_index\<close>, \<open>edge_attr\<close>, \<open>num_nodes\<close>) and the CSV of
  the two tables joined by one newline, whatever the solver, the similarity and the
  top-k selection are: none of them is called. With no edge rows the edge block is its
  header line alone.
\<close>

theorem C7_degenerate_passthrough:
  assumes "length textual_nodes = 0 \<or> length textual_edges = 0
     \<or> well_formed graph textual_nodes textual_edges
        \<and> (data_num_nodes graph = 0 \<or> length (data_edge_index graph) = 0)"
  shows "retrieval_via_pcst cos_sim topk_indices pcst_fast graph q_emb textual_nodes
           textual_edges topk topk_e cost_e
         = Inr (graph, nodes_to_csv textual_nodes @ [CHR 0x0A] @ edges_to_csv textual_edges)
       \<and> (length textual_edges = 0 \<longrightarrow>
            edges_to_csv textual_edges = ''src,edge_attr,dst'' @ [CHR 0x0A])"
proof -
  from assms have "length textual_nodes = 0 \<or> length textual_edges = 0"
    by (auto simp: well_formed_def)
  then have "retrieval_via_pcst cos_sim topk_indices pcst_fast graph q_emb textual_nodes
           textual_edges topk topk_e cost_e
         = Inr (graph, nodes_to_csv textual_nodes @ [CHR 0x0A] @ edges_to_csv textual_edges)"
    by (simp add: retrieval_via_pcst_def Let_def)
  moreover have "edges_to_csv [] = ''src,edge_attr,dst'' @ [CHR 0x0A]"
    by (simp add: edges_to_csv_def csv_line_def csv_field_def)
  ultimately show ?thesis by simp
qed

theorem C7_degenerate_passthrough_witness:
  "length ([] :: edge_row list) = 0
   \<and> retrieval_via_pcst dot (\<lambda>xs k. [0]) (\<lambda>es ps cs root n p v. ([0], []))
        \<lparr>data_x = [[1, 0], [0, 1]], data_edge_index = [], data_edge_attr = [],
          data_num_nodes = 2\<rparr>
        [1, 0] [(0, ''a''), (1, ''b'')] [] 3 3 (1 / 2)
      = Inr (\<lparr>data_x = [[1, 0], [0, 1]], data_edge_index = [], data_edge_attr = [],
               data_num_nodes = 2\<rparr>,
             ''node_id,node_attr\<newline>0,a\<newline>1,b\<newline>\<newline>src,edge_attr,dst\<newline>'')"
  using C7_degenerate_passthrough [where textual_edges = "[]"
      and textual_nodes = "[(0, ''a''), (1, ''b'')]" and cos_sim = dot
      and topk_indices = "\<lambda>xs k. [0]" and pcst_fast = "\<lambda>es ps cs root n p v. ([0], [])"
      and graph = "\<lparr>data_x = [[1, 0], [0, 1]], data_edge_index = [], data_edge_attr = [],
          data_num_nodes = 2\<rparr>" and q_emb = "[1, 0]" and topk = 3 and topk_e = 3
      and cost_e = "1 / 2"]
  by (simp add: nodes_to_csv_def csv_line_def csv_field_def str_of_nat.simps)

subsection \<open>The small instance: two runs\<close>

text \<open>
  In the first run the optimum holds node \<open>b\<close> and the virtual node of edge \<open>s\<close> (vertex
  \<open>3\<close>), joined by the zero-cost virtual edge at position \<open>1\<close>; in the second, with all edge
  prizes zero, it is the single node \<open>b\<close>.
\<close>

lemma ex_run_virtual:
  "pcst_path dot (fixed_topk [1]) (checked_solver [1, 3] [1]) ex_graph [1, 0] ex_nodes ex_edges
     1 1 (1 / 2)
   = Inr \<lparr>r_selected_nodes = [1], r_new_selected_edges = [1], r_new_selected_nodes = [1, 2],
          r_data = \<lparr>data_x = [[1, 0], [0, 1]], data_edge_index = [(0, 1)],
                     data_edge_attr = [[1, 0]], data_num_nodes = 1\<rparr>,
          r_desc = ''node_id,node_attr\<newline>1,b\<newline>2,c\<newline>\<newline>src,edge_attr,dst\<newline>1,s,2\<newline>''\<rparr>"
  by code_simp

lemma ex_run_single:
  "pcst_path dot (fixed_topk [1]) (checked_solver [1] []) ex_graph [1, 0] ex_nodes ex_edges
     1 0 (1 / 2)
   = Inr \<lparr>r_selected_nodes = [1], r_new_selected_edges = [], r_new_selected_nodes = [1],
          r_data = \<lparr>data_x = [[1, 0]], data_edge_index = [],
                     data_edge_attr = [], data_num_nodes = 1\<rparr>,
          r_desc = ''node_id,node_attr\<newline>1,b\<newline>\<newline>src,edge_attr,dst\<newline>''\<rparr>"
  by code_simp

lemma ex_well_formed: "well_formed ex_graph ex_nodes ex_edges"
  by (simp add: well_formed_def ex_graph_def ex_nodes_def ex_edges_def)

lemma ex_nonempty: "ex_nodes \<noteq> []" "ex_edges \<noteq> []"
  by (simp_all add: ex_nodes_def ex_edges_def)

lemma checked_solver_in_range: "solver_in_range (checked_solver vs es)"
  by (simp add: solver_in_range_def checked_solver_def tree_ok_def)

lemma checked_solver_tree: "solver_tree (checked_solver vs es)"
  by (simp add: solver_tree_def checked_solver_def tree_ok_def Let_def)

lemma ex_is_topk:
  "is_topk (map (dot [1, 0]) (data_x ex_graph)) (min (nat 1) (data_num_nodes ex_graph)) [1]"
  by (simp add: is_topk_def ex_graph_def dot_def less_Suc_eq numeral_3_eq_3)

lemma retrieval_of_pcst_path:
  "textual_nodes \<noteq> [] \<Longrightarrow> textual_edges \<noteq> [] \<Longrightarrow>
   pcst_path cos_sim topk_indices pcst_fast graph q_emb textual_nodes textual_edges
     topk topk_e cost_e = Inr r \<Longrightarrow>
   retrieval_via_pcst cos_sim topk_indices pcst_fast graph q_emb textual_nodes textual_edges
     topk topk_e cost_e = Inr (r_data r, r_desc r)"
  by (simp add: retrieval_via_pcst_def Let_def)

subsection \<open>C4: the final node set\<close>

text \<open>
  C4. For a non-degenerate input as \<open>process\<close> builds it, with a solver that returns
  vertices of its instance, the function reaches its return statement, and there the
  final node list \<open>new_selected_nodes\<close>, whose feature rows make up the returned \<open>x\<close>, is
  the ascending, duplicate-free list of the set
  \<open>selected_nodes\<close> united with the sources and destinations of the final edges
  \<open>new_selected_edges\<close>; so both endpoints of every final edge are in it. In the witness
  the solver selects node \<open>1\<close> and the virtual node of edge \<open>1 = (1, 2)\<close> but not node \<open>2\<close>,
  and node \<open>2\<close> is in the final list.
\<close>

theorem C4_final_nodes:
  assumes "well_formed graph textual_nodes textual_edges"
    and "textual_nodes \<noteq> []" and "textual_edges \<noteq> []"
    and "solver_in_range pcst_fast"
    and "0 < topk \<longrightarrow>
      is_topk (map (cos_sim q_emb) (data_x graph)) (min (nat topk) (data_num_nodes graph))
        (topk_indices (map (cos_sim q_emb) (data_x graph)) (min (nat topk) (data_num_nodes graph)))"
  shows "\<exists>r. pcst_path cos_sim topk_indices pcst_fast graph q_emb textual_nodes textual_edges
             topk topk_e cost_e = Inr r
    \<and> retrieval_via_pcst cos_sim topk_indices pcst_fast graph q_emb textual_nodes
          textual_edges topk topk_e cost_e = Inr (r_data r, r_desc r)
    \<and> data_x (r_data r) = map (\<lambda>i. data_x graph ! i) (r_new_selected_nodes r)
    \<and> r_new_selected_nodes r =
        sorted_list_of_set (set (r_selected_nodes r)
          \<union> (\<lambda>i. fst (data_edge_index graph ! i)) ` set (r_new_selected_edges r)
          \<union> (\<lambda>i. snd (data_edge_index graph ! i)) ` set (r_new_selected_edges r))
    \<and> (\<forall>i \<in> set (r_new_selected_edges r).
          fst (data_edge_index graph ! i) \<in> set (r_new_selected_nodes r)
        \<and> snd (data_edge_index graph ! i) \<in> set (r_new_selected_nodes r))"
proof -
  obtain r where r: "pcst_path cos_sim topk_indices pcst_fast graph q_emb textual_nodes
      textual_edges topk topk_e cost_e = Inr r"
    using pcst_path_returns [where cos_sim = cos_sim and q_emb = q_emb
        and topk_indices = topk_indices and topk = topk and graph = graph,
        OF assms(1,3,4,5)] by blast
  from pcst_path_InrD [OF r] obtain red vertices edges where
    "reconstruct graph textual_nodes textual_edges red vertices edges = Inr r"
    by blast
  note d = reconstruct_InrD(4) [OF this] and dx = reconstruct_InrD(5) [OF this]
  have "r_new_selected_nodes r =
        sorted_list_of_set (set (r_selected_nodes r)
          \<union> (\<lambda>i. fst (data_edge_index graph ! i)) ` set (r_new_selected_edges r)
          \<union> (\<lambda>i. snd (data_edge_index graph ! i)) ` set (r_new_selected_edges r))"
    by (simp add: d unique_sorted_list_of_set Un_assoc)
  moreover have "\<forall>i \<in> set (r_new_selected_edges r).
          fst (data_edge_index graph ! i) \<in> set (r_new_selected_nodes r)
        \<and> snd (data_edge_index graph ! i) \<in> set (r_new_selected_nodes r)"
    by (simp add: d set_unique)
  ultimately show ?thesis
    using r retrieval_of_pcst_path [OF assms(2,3) r] dx by (intro exI [of _ r] conjI)
qed


theorem C4_final_nodes_witness:
  "well_formed ex_graph ex_nodes ex_edges \<and> ex_nodes \<noteq> [] \<and> ex_edges \<noteq> []
   \<and> solver_in_range (checked_solver [1, 3] [1]) \<and> (0::int) < 1
   \<and> is_topk (map (dot [1, 0]) (data_x ex_graph)) (min (nat 1) (data_num_nodes ex_graph)) [1]
   \<and> (\<exists>r. pcst_path dot (fixed_topk [1]) (checked_solver [1, 3] [1]) ex_graph [1, 0]
             ex_nodes ex_edges 1 1 (1 / 2) = Inr r
        \<and> r_selected_nodes r = [1] \<and> r_new_selected_edges r = [1]
        \<and> data_edge_index ex_graph ! 1 = (1, 2)
        \<and> r_new_selected_nodes r = [1, 2])"
  using C4_final_nodes [where cos_sim = dot and topk_indices = "fixed_topk [1]"
      and pcst_fast = "checked_solver [1, 3] [1]" and graph = ex_graph and q_emb = "[1, 0]"
      and textual_nodes = ex_nodes and textual_edges = ex_edges and topk = 1 and topk_e = 1
      and cost_e = "1 / 2"]
    ex_well_formed ex_nonempty checked_solver_in_range [of "[1, 3]" "[1]"] ex_is_topk
    ex_run_virtual
  by (simp add: ex_graph_def fixed_topk_def)

subsection \<open>The dense remapping\<close>

text \<open>The dense remapping \<open>{n: i for i, n in enumerate(ns)}\<close> of a duplicate-free list.\<close>

lemma compact_lookup_nth:
  "distinct ns \<Longrightarrow> i < length ns \<Longrightarrow> map_of (zip ns [0..<length ns]) (ns ! i) = Some i"
  using map_of_zip_nth [of ns "[0..<length ns]" i] by simp

lemma compact_lookup_mem:
  assumes "v \<in> set ns"
  shows "the (map_of (zip ns [0..<length ns]) v) < length ns
       \<and> ns ! the (map_of (zip ns [0..<length ns]) v) = v"
proof -
  have "map_of (zip ns [0..<length ns]) v \<noteq> None"
    using assms by (rule map_of_zip_upt_dom)
  then obtain i where "map_of (zip ns [0..<length ns]) v = Some i"
    by (meson not_None_eq)
  then show ?thesis using map_of_zip_upt_Some [of ns v i] by simp
qed

lemma compact_image_full:
  assumes d: "distinct ns" and sub: "A \<subseteq> set ns"
  shows "(\<lambda>v. the (map_of (zip ns [0..<length ns]) v)) ` A = {0..<length ns} \<longleftrightarrow> set ns \<subseteq> A"
proof
  assume full: "(\<lambda>v. the (map_of (zip ns [0..<length ns]) v)) ` A = {0..<length ns}"
  show "set ns \<subseteq> A"
  proof
    fix s assume "s \<in> set ns"
    then obtain i where i: "i < length ns" "ns ! i = s" by (auto simp: in_set_conv_nth)
    then have "i \<in> (\<lambda>v. the (map_of (zip ns [0..<length ns]) v)) ` A" using full by simp
    then obtain v where v: "v \<in> A" "i = the (map_of (zip ns [0..<length ns]) v)" by auto
    then have "ns ! i = v" using compact_lookup_mem [of v ns] sub by auto
    then show "s \<in> A" using i v by simp
  qed
next
  assume all: "set ns \<subseteq> A"
  show "(\<lambda>v. the (map_of (zip ns [0..<length ns]) v)) ` A = {0..<length ns}"
  proof (intro equalityI subsetI)
    fix i assume "i \<in> (\<lambda>v. the (map_of (zip ns [0..<length ns]) v)) ` A"
    then show "i \<in> {0..<length ns}" using compact_lookup_mem [of _ ns] sub by auto
  next
    fix i assume "i \<in> {0..<length ns}"
    then have i: "i < length ns" by simp
    then have "ns ! i \<in> A" using all by auto
    moreover have "the (map_of (zip ns [0..<length ns]) (ns ! i)) = i"
      using compact_lookup_nth [OF d i] by simp
    ultimately show "i \<in> (\<lambda>v. the (map_of (zip ns [0..<length ns]) v)) ` A"
      by (metis imageI)
  qed
qed

lemma compact_inj_on:
  "inj_on (\<lambda>v. the (map_of (zip ns [0..<length ns]) v)) (set ns)"
proof (rule inj_onI)
  fix a b assume "a \<in> set ns" "b \<in> set ns"
    and "the (map_of (zip ns [0..<length ns]) a) = the (map_of (zip ns [0..<length ns]) b)"
  then show "a = b" using compact_lookup_mem [of a ns] compact_lookup_mem [of b ns] by metis
qed

lemma node_ids_map:
  "node_ids (map (\<lambda>i. (f (fst (es ! i)), f (snd (es ! i)))) sel)
     = f ` node_ids (map (\<lambda>i. es ! i) sel)"
  by (auto simp: node_ids_def image_iff) force+

lemma ex_topk_hyp:
  "0 < (1::int) \<longrightarrow>
     is_topk (map (dot [1, 0]) (data_x ex_graph)) (min (nat 1) (data_num_nodes ex_graph))
       (fixed_topk [1] (map (dot [1, 0]) (data_x ex_graph)) (min (nat 1) (data_num_nodes ex_graph)))"
  using ex_is_topk by (simp add: fixed_topk_def)

subsection \<open>C5: compact node ids\<close>

text \<open>
  C5 says that the node ids in the returned \<open>edge_index\<close> are exactly \<open>[0, |final_nodes|)\<close>.
  They are not when a selected node is no endpoint of a final edge: when the solver
  returns the single vertex \<open>1\<close> and no edge (the optimum when every edge costs more than
  it gains), the final node list is \<open>[1]\<close>, \<open>x\<close> has one row and \<open>edge_index\<close> is empty, so no id
  occurs in it.
\<close>

theorem C5_single_vertex_counterexample:
  "retrieval_via_pcst dot (fixed_topk [1]) (checked_solver [1] []) ex_graph [1, 0]
     ex_nodes ex_edges 1 0 (1 / 2)
   = Inr (\<lparr>data_x = [[1, 0]], data_edge_index = [], data_edge_attr = [], data_num_nodes = 1\<rparr>,
          ''node_id,node_attr\<newline>1,b\<newline>\<newline>src,edge_attr,dst\<newline>'')
   \<and> node_ids ([] :: (nat \<times> nat) list) \<noteq> {0..<length [[1, 0 :: rat]]}"
  using retrieval_of_pcst_path [OF ex_nonempty ex_run_single]
  by (simp add: node_ids_def)

text \<open>
  C5, amended. For a non-degenerate input as \<open>process\<close> builds it the function returns, \<open>x\<close>
  holds the feature rows of the final nodes in their ascending order, \<open>edge_attr\<close> the
  feature rows of the final edges, and the returned \<open>edge_index\<close> holds, for the \<open>p\<close>-th final
  edge, the positions of its source and destination in the final node list: ids below
  \<open>|final_nodes|\<close> that the final node list maps back to the original endpoints. The ids
  that occur are the whole range \<open>[0, |final_nodes|)\<close> exactly when every node the solver
  selected is an endpoint of a final edge.
\<close>

theorem C5_compact_ids:
  assumes "well_formed graph textual_nodes textual_edges"
    and "textual_nodes \<noteq> []" and "textual_edges \<noteq> []"
    and "solver_in_range pcst_fast"
    and "0 < topk \<longrightarrow>
      is_topk (map (cos_sim q_emb) (data_x graph)) (min (nat topk) (data_num_nodes graph))
        (topk_indices (map (cos_sim q_emb) (data_x graph)) (min (nat topk) (data_num_nodes graph)))"
  shows "\<exists>r. pcst_path cos_sim topk_indices pcst_fast graph q_emb textual_nodes textual_edges
             topk topk_e cost_e = Inr r
    \<and> retrieval_via_pcst cos_sim topk_indices pcst_fast graph q_emb textual_nodes
          textual_edges topk topk_e cost_e = Inr (r_data r, r_desc r)
    \<and> data_x (r_data r) = map (\<lambda>i. data_x graph ! i) (r_new_selected_nodes r)
    \<and> data_edge_attr (r_data r) = map (\<lambda>i. data_edge_attr graph ! i) (r_new_selected_edges r)
    \<and> length (data_edge_index (r_data r)) = length (r_new_selected_edges r)
    \<and> (\<forall>p < length (r_new_selected_edges r).
          fst (data_edge_index (r_data r) ! p) < length (r_new_selected_nodes r)
        \<and> snd (data_edge_index (r_data r) ! p) < length (r_new_selected_nodes r)
        \<and> r_new_selected_nodes r ! fst (data_edge_index (r_data r) ! p)
            = fst (data_edge_index graph ! (r_new_selected_edges r ! p))
        \<and> r_new_selected_nodes r ! snd (data_edge_index (r_data r) ! p)
            = snd (data_edge_index graph ! (r_new_selected_edges r ! p)))
    \<and> (node_ids (data_edge_index (r_data r)) = {0..<length (r_new_selected_nodes r)}
         \<longleftrightarrow> set (r_selected_nodes r)
               \<subseteq> node_ids (map (\<lambda>i. data_edge_index graph ! i) (r_new_selected_edges r)))"
proof -
  obtain r where r: "pcst_path cos_sim topk_indices pcst_fast graph q_emb textual_nodes
      textual_edges topk topk_e cost_e = Inr r"
    using pcst_path_returns [where cos_sim = cos_sim and q_emb = q_emb
        and topk_indices = topk_indices and topk = topk and graph = graph,
        OF assms(1,3,4,5)] by blast
  from pcst_path_InrD [OF r] obtain red vertices edges where
    rec: "reconstruct graph textual_nodes textual_edges red vertices edges = Inr r"
    by blast
  note d = reconstruct_InrD [OF rec]
  define ns where "ns = r_new_selected_nodes r"
  define sel where "sel = r_new_selected_edges r"
  define ends where "ends = node_ids (map (\<lambda>i. data_edge_index graph ! i) sel)"
  define idx where "idx = (\<lambda>v. the (map_of (zip ns [0..<length ns]) v))"
  have out: "data_edge_index (r_data r)
      = map (\<lambda>i. (idx (fst (data_edge_index graph ! i)), idx (snd (data_edge_index graph ! i)))) sel"
    using d(9) by (simp add: ns_def sel_def idx_def)
  have dist: "distinct ns" using d(4) by (simp add: ns_def distinct_unique)
  have setns: "set ns = set (r_selected_nodes r) \<union> ends"
    using d(4) by (auto simp: ns_def sel_def ends_def node_ids_def set_unique)
  have ends_sub: "ends \<subseteq> set ns" using setns by auto
  have len: "length (data_edge_index (r_data r)) = length (r_new_selected_edges r)"
    by (simp add: out sel_def)
  have pos: "fst (data_edge_index (r_data r) ! p) < length ns
        \<and> snd (data_edge_index (r_data r) ! p) < length ns
        \<and> ns ! fst (data_edge_index (r_data r) ! p) = fst (data_edge_index graph ! (sel ! p))
        \<and> ns ! snd (data_edge_index (r_data r) ! p) = snd (data_edge_index graph ! (sel ! p))"
    if p: "p < length sel" for p
  proof -
    have "data_edge_index graph ! (sel ! p) \<in> set (map (\<lambda>i. data_edge_index graph ! i) sel)"
      using p by simp
    then have "fst (data_edge_index graph ! (sel ! p)) \<in> ends"
      "snd (data_edge_index graph ! (sel ! p)) \<in> ends"
      unfolding ends_def node_ids_def by blast+
    then have "fst (data_edge_index graph ! (sel ! p)) \<in> set ns"
      "snd (data_edge_index graph ! (sel ! p)) \<in> set ns"
      using ends_sub by auto
    then show ?thesis
      using compact_lookup_mem [of "fst (data_edge_index graph ! (sel ! p))" ns]
        compact_lookup_mem [of "snd (data_edge_index graph ! (sel ! p))" ns] p
      by (simp add: out idx_def)
  qed
  have ids: "node_ids (data_edge_index (r_data r)) = idx ` ends"
    unfolding out ends_def by (rule node_ids_map)
  have "idx ` ends = {0..<length ns} \<longleftrightarrow> set ns \<subseteq> ends"
    unfolding idx_def using dist ends_sub by (rule compact_image_full)
  also have "\<dots> \<longleftrightarrow> set (r_selected_nodes r) \<subseteq> ends" using setns by auto
  finally have full: "node_ids (data_edge_index (r_data r)) = {0..<length ns}
      \<longleftrightarrow> set (r_selected_nodes r) \<subseteq> ends"
    using ids by simp
  show ?thesis
    using r retrieval_of_pcst_path [OF assms(2,3) r] d(5,6) len pos full
    unfolding ns_def sel_def ends_def
    by (intro exI [of _ r] conjI allI impI) simp_all
qed

theorem C5_compact_ids_witness:
  "well_formed ex_graph ex_nodes ex_edges \<and> ex_nodes \<noteq> [] \<and> ex_edges \<noteq> []
   \<and> solver_in_range (checked_solver [1, 3] [1]) \<and> (0::int) < 1
   \<and> is_topk (map (dot [1, 0]) (data_x ex_graph)) (min (nat 1) (data_num_nodes ex_graph)) [1]
   \<and> (\<exists>r. pcst_path dot (fixed_topk [1]) (checked_solver [1, 3] [1]) ex_graph [1, 0]
             ex_nodes ex_edges 1 1 (1 / 2) = Inr r
        \<and> r_new_selected_nodes r = [1, 2] \<and> r_new_selected_edges r = [1]
        \<and> data_edge_index (r_data r) = [(0, 1)]
        \<and> data_x (r_data r) = [[1, 0], [0, 1]] \<and> data_edge_attr (r_data r) = [[1, 0]]
        \<and> node_ids (data_edge_index (r_data r)) = {0..<length (r_new_selected_nodes r)})"
proof -
  from C5_compact_ids [where cos_sim = dot and topk_indices = "fixed_topk [1]"
        and pcst_fast = "checked_solver [1, 3] [1]" and graph = ex_graph and q_emb = "[1, 0]"
        and textual_nodes = ex_nodes and textual_edges = ex_edges and topk = 1 and topk_e = 1
        and cost_e = "1 / 2", OF ex_well_formed ex_nonempty checked_solver_in_range ex_topk_hyp]
  obtain r where r: "pcst_path dot (fixed_topk [1]) (checked_solver [1, 3] [1]) ex_graph [1, 0]
             ex_nodes ex_edges 1 1 (1 / 2) = Inr r"
    by blast
  have ids: "node_ids [(0, Suc 0)] = {0..<2}"
    by (auto simp: node_ids_def)
  have "\<exists>r. pcst_path dot (fixed_topk [1]) (checked_solver [1, 3] [1]) ex_graph [1, 0]
             ex_nodes ex_edges 1 1 (1 / 2) = Inr r
        \<and> r_new_selected_nodes r = [1, 2] \<and> r_new_selected_edges r = [1]
        \<and> data_edge_index (r_data r) = [(0, 1)]
        \<and> data_x (r_data r) = [[1, 0], [0, 1]] \<and> data_edge_attr (r_data r) = [[1, 0]]
        \<and> node_ids (data_edge_index (r_data r)) = {0..<length (r_new_selected_nodes r)}"
    using r ids unfolding ex_run_virtual by (intro exI [of _ r]) auto
  then show ?thesis
    using ex_well_formed ex_nonempty checked_solver_in_range [of "[1, 3]" "[1]"] ex_is_topk
    by simp
qed

subsection \<open>The tables of \<open>process\<close>\<close>

text \<open>
  The loop over the triples returns, every node row numbered by its position and every
  edge row between two of these numbers.
\<close>

lemma raw_tables_invariant:
  assumes "map snd raw_nodes = [0..<length raw_nodes]"
    and "list_all (\<lambda>(src, edge_attr, dst). src < length raw_nodes \<and> dst < length raw_nodes)
           raw_edges"
  shows "\<exists>raw_nodes' raw_edges'.
      raw_tables lower tris raw_nodes raw_edges = Inr (raw_nodes', raw_edges')
    \<and> map snd raw_nodes' = [0..<length raw_nodes']
    \<and> list_all (\<lambda>(src, edge_attr, dst). src < length raw_nodes' \<and> dst < length raw_nodes')
        raw_edges'"
  using assms
proof (induction tris arbitrary: raw_nodes raw_edges)
  case Nil
  then show ?case by simp
next
  case (Cons tri tris)
  obtain h r t where tri: "tri = (h, r, t)" by (cases tri) auto
  define rn1 where "rn1 = (if map_of raw_nodes (lower h) = None
                        then raw_nodes @ [(lower h, length raw_nodes)] else raw_nodes)"
  define rn2 where "rn2 = (if map_of rn1 (lower t) = None
                        then rn1 @ [(lower t, length rn1)] else rn1)"
  have i1: "map snd rn1 = [0..<length rn1]"
    using Cons.prems(1) by (simp add: rn1_def)
  have i2: "map snd rn2 = [0..<length rn2]"
    using i1 by (simp add: rn2_def)
  have len: "length raw_nodes \<le> length rn2"
    by (simp add: rn1_def rn2_def)
  have h1: "map_of rn1 (lower h) \<noteq> None"
    by (auto simp: rn1_def map_add_def)
  have h2: "map_of rn2 (lower h) \<noteq> None"
    using h1 by (auto simp: rn2_def map_add_def split: option.splits)
  have t2: "map_of rn2 (lower t) \<noteq> None"
    by (auto simp: rn2_def map_add_def)
  from h2 obtain src where src: "map_of rn2 (lower h) = Some src" by auto
  from t2 obtain dst where dst: "map_of rn2 (lower t) = Some dst" by auto
  have rng: "\<And>k v. map_of rn2 k = Some v \<Longrightarrow> v < length rn2"
  proof -
    fix k v assume "map_of rn2 k = Some v"
    then have "v \<in> set (map snd rn2)" by (force dest: map_of_SomeD)
    then show "v < length rn2" unfolding i2 by simp
  qed
  have e2: "list_all (\<lambda>(src, edge_attr, dst). src < length rn2 \<and> dst < length rn2)
              (raw_edges @ [(src, r, dst)])"
    using Cons.prems(2) len rng [OF src] rng [OF dst] by (auto simp: list_all_iff)
  have step: "raw_tables lower (tri # tris) raw_nodes raw_edges
      = raw_tables lower tris rn2 (raw_edges @ [(src, r, dst)])"
  proof -
    have "raw_tables lower (tri # tris) raw_nodes raw_edges
      = (case map_of rn2 (lower h) of
           None \<Rightarrow> Inl KeyError
         | Some src \<Rightarrow>
             (case map_of rn2 (lower t) of
                None \<Rightarrow> Inl KeyError
              | Some dst \<Rightarrow> raw_tables lower tris rn2 (raw_edges @ [(src, r, dst)])))"
      unfolding tri raw_tables.simps Let_def rn2_def rn1_def by (rule refl)
    then show ?thesis by (simp only: src dst option.case)
  qed
  show ?case unfolding step by (rule Cons.IH [OF i2 e2])
qed

lemma zip_columns:
  "zip (map (\<lambda>(src, edge_attr, dst). src) es) (map (\<lambda>(src, edge_attr, dst). dst) es)
   = map (\<lambda>(src, edge_attr, dst). (src, dst)) (es :: edge_row list)"
  by (induction es) auto

lemma process_graph_returns:
  "\<exists>raw_graph nodes edges.
     process_graph text2embedding lower tris = Inr (raw_graph, nodes, edges)"
  using raw_tables_invariant [of "[]" "[]" lower tris]
  by (auto simp: process_graph_def Let_def)

lemma process_graph_tables_match:
  assumes "process_graph text2embedding lower tris = Inr (raw_graph, nodes, edges)"
  shows "tables_match raw_graph nodes edges"
proof -
  from raw_tables_invariant [of "[]" "[]" lower tris] obtain rn re where
    rt: "raw_tables lower tris [] [] = Inr (rn, re)"
    and i: "map snd rn = [0..<length rn]"
    by auto
  have "map fst (map (\<lambda>(k, v). (v, k)) rn) = map snd rn"
    by (induction rn) auto
  then show ?thesis
    using assms i by (auto simp: process_graph_def rt Let_def tables_match_def zip_columns)
qed

lemma process_graph_well_formed:
  assumes "process_graph text2embedding lower tris = Inr (raw_graph, nodes, edges)"
    and "\<And>texts. length (text2embedding texts) = length texts"
  shows "well_formed raw_graph nodes edges"
proof -
  from raw_tables_invariant [of "[]" "[]" lower tris] obtain rn re where
    rt: "raw_tables lower tris [] [] = Inr (rn, re)"
    and e: "list_all (\<lambda>(src, edge_attr, dst). src < length rn \<and> dst < length rn) re"
    by auto
  show ?thesis
    using assms e
    by (auto simp: process_graph_def rt Let_def well_formed_def zip_columns list_all_iff)
qed

lemma ex_process_graph:
  "process_graph ex_text2embedding id [(''a'', ''r'', ''b''), (''b'', ''s'', ''c'')]
   = Inr (ex_graph, ex_nodes, ex_edges)"
  by code_simp

lemma ex_tables_match: "tables_match ex_graph ex_nodes ex_edges"
  by (rule process_graph_tables_match [OF ex_process_graph])

text \<open>The rows that a reconstruction selects exist, and what \<open>tables_match\<close> says of a row.\<close>

lemma reconstruct_rows_in_range:
  assumes "reconstruct graph textual_nodes textual_edges red vertices edges = Inr r"
  shows "\<forall>i \<in> set (r_new_selected_nodes r). i < length textual_nodes"
    and "\<forall>i \<in> set (r_new_selected_edges r). i < length textual_edges"
proof -
  from reconstruct_steps [OF assms] obtain se nve ns n e where
      n: "take_rows textual_nodes ns = Inr n"
    and e: "take_rows textual_edges (se @ nve) = Inr e"
    and ns: "r_new_selected_nodes r = ns"
    and es: "r_new_selected_edges r = se @ nve"
    by force
  show "\<forall>i \<in> set (r_new_selected_nodes r). i < length textual_nodes"
    using n unfolding ns take_rows_Inr by blast
  show "\<forall>i \<in> set (r_new_selected_edges r). i < length textual_edges"
    using e unfolding es take_rows_Inr by blast
qed

lemma tables_match_node_id:
  "tables_match graph textual_nodes textual_edges \<Longrightarrow> i < length textual_nodes \<Longrightarrow>
     fst (textual_nodes ! i) = i"
proof -
  assume tm: "tables_match graph textual_nodes textual_edges" and i: "i < length textual_nodes"
  have "fst (textual_nodes ! i) = map fst textual_nodes ! i" using i by simp
  also have "\<dots> = [0..<length textual_nodes] ! i" using tm by (simp add: tables_match_def)
  also have "\<dots> = i" using i by simp
  finally show ?thesis .
qed

lemma tables_match_src_dst:
  assumes "tables_match graph textual_nodes textual_edges" and "i < length textual_edges"
  shows "fst (textual_edges ! i) = fst (data_edge_index graph ! i)"
    and "snd (snd (textual_edges ! i)) = snd (data_edge_index graph ! i)"
  using assms by (simp_all add: tables_match_def case_prod_beta)

subsection \<open>C6: the textual description\<close>

text \<open>
  C6 says that the edge rows of the description carry the compact remapped ids. The
  description is written before the remapping is computed, from the rows of the edge
  table: in the run below the returned \<open>edge_index\<close> is \<open>(0, 1)\<close> and the edge row is \<open>1,s,2\<close>,
  the original ids, the ones the \<open>node_id\<close> column of the node block holds.
\<close>

theorem C6_original_ids_counterexample:
  "retrieval_via_pcst dot (fixed_topk [1]) (checked_solver [1, 3] [1]) ex_graph [1, 0]
     ex_nodes ex_edges 1 1 (1 / 2)
   = Inr (\<lparr>data_x = [[1, 0], [0, 1]], data_edge_index = [(0, 1)], data_edge_attr = [[1, 0]],
            data_num_nodes = 1\<rparr>,
          ''node_id,node_attr\<newline>1,b\<newline>2,c\<newline>\<newline>src,edge_attr,dst\<newline>1,s,2\<newline>'')
   \<and> desc_spec [(1, ''b''), (2, ''c'')] [(1, ''s'', 2)] [(0, 1)]
     = ''node_id,node_attr\<newline>1,b\<newline>2,c\<newline>\<newline>src,edge_attr,dst\<newline>0,s,1\<newline>''
   \<and> ''node_id,node_attr\<newline>1,b\<newline>2,c\<newline>\<newline>src,edge_attr,dst\<newline>1,s,2\<newline>''
     \<noteq> ''node_id,node_attr\<newline>1,b\<newline>2,c\<newline>\<newline>src,edge_attr,dst\<newline>0,s,1\<newline>''"
proof -
  have "desc_spec [(1, ''b''), (2, ''c'')] [(1, ''s'', 2)] [(0, 1)]
     = ''node_id,node_attr\<newline>1,b\<newline>2,c\<newline>\<newline>src,edge_attr,dst\<newline>0,s,1\<newline>''"
    by code_simp
  then show ?thesis
    using retrieval_of_pcst_path [OF ex_nonempty ex_run_virtual] by simp
qed

text \<open>
  C6, amended. For a non-degenerate input as \<open>process\<close> builds it (\<open>well_formed\<close>,
  \<open>tables_match\<close>) the function returns, and the description is the CSV of the node-table
  rows \<open>n\<close> of the final nodes (header \<open>node_id,node_attr\<close>), one newline, and the CSV of the
  edge-table rows \<open>e\<close> of the final edges (header \<open>src,edge_attr,dst\<close>). The \<open>node_id\<close> column
  of \<open>n\<close> is the list of the final nodes, numbered as in the input graph. The \<open>src\<close> and \<open>dst\<close>
  of the rows of \<open>e\<close> are the two ends, in the \<open>edge_index\<close> of the input graph, of the final
  edges: the original node ids, each of them in the \<open>node_id\<close> column of \<open>n\<close>. The compact ids
  of the returned \<open>edge_index\<close> are the positions of these \<open>src\<close> and \<open>dst\<close> in the \<open>node_id\<close>
  column of \<open>n\<close>.
\<close>

theorem C6_description:
  assumes "well_formed graph textual_nodes textual_edges"
    and "tables_match graph textual_nodes textual_edges"
    and "textual_nodes \<noteq> []" and "textual_edges \<noteq> []"
    and "solver_in_range pcst_fast"
    and "0 < topk \<longrightarrow>
      is_topk (map (cos_sim q_emb) (data_x graph)) (min (nat topk) (data_num_nodes graph))
        (topk_indices (map (cos_sim q_emb) (data_x graph)) (min (nat topk) (data_num_nodes graph)))"
  shows "\<exists>r n e. pcst_path cos_sim topk_indices pcst_fast graph q_emb textual_nodes textual_edges
             topk topk_e cost_e = Inr r
    \<and> retrieval_via_pcst cos_sim topk_indices pcst_fast graph q_emb textual_nodes
          textual_edges topk topk_e cost_e = Inr (r_data r, r_desc r)
    \<and> n = map (\<lambda>i. textual_nodes ! i) (r_new_selected_nodes r)
    \<and> e = map (\<lambda>i. textual_edges ! i) (r_new_selected_edges r)
    \<and> r_desc r = nodes_to_csv n @ [CHR 0x0A] @ edges_to_csv e
    \<and> map fst n = r_new_selected_nodes r
    \<and> map (\<lambda>(src, edge_attr, dst). (src, dst)) e
        = map (\<lambda>i. data_edge_index graph ! i) (r_new_selected_edges r)
    \<and> list_all (\<lambda>(src, edge_attr, dst). src \<in> set (map fst n) \<and> dst \<in> set (map fst n)) e
    \<and> data_edge_index (r_data r)
        = map (\<lambda>(src, edge_attr, dst).
                 (the (map_of (zip (map fst n) [0..<length n]) src),
                  the (map_of (zip (map fst n) [0..<length n]) dst))) e"
proof -
  obtain r where r: "pcst_path cos_sim topk_indices pcst_fast graph q_emb textual_nodes
      textual_edges topk topk_e cost_e = Inr r"
    using pcst_path_returns [where cos_sim = cos_sim and q_emb = q_emb
        and topk_indices = topk_indices and topk = topk and graph = graph,
        OF assms(1,4,5,6)] by blast
  from pcst_path_InrD [OF r] obtain red vertices edges where
    rec: "reconstruct graph textual_nodes textual_edges red vertices edges = Inr r"
    by blast
  define n where "n = map (\<lambda>i. textual_nodes ! i) (r_new_selected_nodes r)"
  define e where "e = map (\<lambda>i. textual_edges ! i) (r_new_selected_edges r)"
  note rng = reconstruct_rows_in_range [OF rec]
  have ids: "map fst n = r_new_selected_nodes r"
    unfolding n_def using rng(1) tables_match_node_id [OF assms(2)]
    by (simp add: map_idI)
  have src: "\<forall>i \<in> set (r_new_selected_edges r).
      fst (textual_edges ! i) = fst (data_edge_index graph ! i)"
    and dst: "\<forall>i \<in> set (r_new_selected_edges r).
      snd (snd (textual_edges ! i)) = snd (data_edge_index graph ! i)"
    using rng(2) tables_match_src_dst [OF assms(2)] by blast+
  have ends: "map (\<lambda>(src, edge_attr, dst). (src, dst)) e
        = map (\<lambda>i. data_edge_index graph ! i) (r_new_selected_edges r)"
    unfolding e_def using src dst by (simp add: case_prod_beta prod_eq_iff)
  have mem: "list_all (\<lambda>(src, edge_attr, dst). src \<in> set (map fst n) \<and> dst \<in> set (map fst n)) e"
  proof -
    have "\<forall>i \<in> set (r_new_selected_edges r).
            fst (data_edge_index graph ! i) \<in> set (r_new_selected_nodes r)
          \<and> snd (data_edge_index graph ! i) \<in> set (r_new_selected_nodes r)"
      unfolding reconstruct_InrD(4) [OF rec] set_unique by simp
    then show ?thesis
      unfolding ids e_def using src dst by (simp add: list_all_iff case_prod_beta)
  qed
  have idx: "data_edge_index (r_data r)
        = map (\<lambda>(src, edge_attr, dst).
                 (the (map_of (zip (map fst n) [0..<length n]) src),
                  the (map_of (zip (map fst n) [0..<length n]) dst))) e"
  proof -
    have len: "length n = length (r_new_selected_nodes r)" by (simp add: n_def)
    show ?thesis
      unfolding reconstruct_InrD(9) [OF rec] ids len e_def using src dst
      by (simp add: case_prod_beta)
  qed
  show ?thesis
    using r retrieval_of_pcst_path [OF assms(3,4) r]
      reconstruct_InrD(8) [OF rec, folded n_def e_def] n_def e_def ids ends mem idx
    by (intro exI [of _ r] exI [of _ n] exI [of _ e] conjI)
qed

theorem C6_description_witness:
  "well_formed ex_graph ex_nodes ex_edges \<and> tables_match ex_graph ex_nodes ex_edges
   \<and> ex_nodes \<noteq> [] \<and> ex_edges \<noteq> []
   \<and> solver_in_range (checked_solver [1, 3] [1]) \<and> (0::int) < 1
   \<and> is_topk (map (dot [1, 0]) (data_x ex_graph)) (min (nat 1) (data_num_nodes ex_graph)) [1]
   \<and> (\<exists>r n e. pcst_path dot (fixed_topk [1]) (checked_solver [1, 3] [1]) ex_graph [1, 0]
             ex_nodes ex_edges 1 1 (1 / 2) = Inr r
        \<and> r_new_selected_nodes r = [1, 2] \<and> r_new_selected_edges r = [1]
        \<and> n = [(1, ''b''), (2, ''c'')] \<and> e = [(1, ''s'', 2)]
        \<and> r_desc r = nodes_to_csv n @ [CHR 0x0A] @ edges_to_csv e
        \<and> map fst n = r_new_selected_nodes r
        \<and> map (\<lambda>(src, edge_attr, dst). (src, dst)) e = [data_edge_index ex_graph ! 1]
        \<and> data_edge_index ex_graph ! 1 = (1, 2)
        \<and> data_edge_index (r_data r) = [(0, 1)])"
proof -
  from C6_description [where cos_sim = dot and topk_indices = "fixed_topk [1]"
        and pcst_fast = "checked_solver [1, 3] [1]" and graph = ex_graph and q_emb = "[1, 0]"
        and textual_nodes = ex_nodes and textual_edges = ex_edges and topk = 1 and topk_e = 1
        and cost_e = "1 / 2",
        OF ex_well_formed ex_tables_match ex_nonempty checked_solver_in_range ex_topk_hyp]
  obtain r n e where r: "pcst_path dot (fixed_topk [1]) (checked_solver [1, 3] [1]) ex_graph [1, 0]
             ex_nodes ex_edges 1 1 (1 / 2) = Inr r"
    and n: "n = map (\<lambda>i. ex_nodes ! i) (r_new_selected_nodes r)"
    and e: "e = map (\<lambda>i. ex_edges ! i) (r_new_selected_edges r)"
    and rd: "r_desc r = nodes_to_csv n @ [CHR 0x0A] @ edges_to_csv e"
    and ids: "map fst n = r_new_selected_nodes r"
    and ends: "map (\<lambda>(src, edge_attr, dst). (src, dst)) e
        = map (\<lambda>i. data_edge_index ex_graph ! i) (r_new_selected_edges r)"
    by blast
  have rn: "r_new_selected_nodes r = [1, 2]" using r unfolding ex_run_virtual by auto
  have re: "r_new_selected_edges r = [1]" using r unfolding ex_run_virtual by auto
  have ri: "data_edge_index (r_data r) = [(0, 1)]" using r unfolding ex_run_virtual by auto
  have n': "n = [(1, ''b''), (2, ''c'')]" unfolding n rn by (simp add: ex_nodes_def)
  have e': "e = [(1, ''s'', 2)]" unfolding e re by (simp add: ex_edges_def)
  have ends': "map (\<lambda>(src, edge_attr, dst). (src, dst)) e = [data_edge_index ex_graph ! 1]"
    unfolding ends re by simp
  have col: "data_edge_index ex_graph ! 1 = (1, 2)" by (simp add: ex_graph_def)
  have "\<exists>r n e. pcst_path dot (fixed_topk [1]) (checked_solver [1, 3] [1]) ex_graph [1, 0]
             ex_nodes ex_edges 1 1 (1 / 2) = Inr r
        \<and> r_new_selected_nodes r = [1, 2] \<and> r_new_selected_edges r = [1]
        \<and> n = [(1, ''b''), (2, ''c'')] \<and> e = [(1, ''s'', 2)]
        \<and> r_desc r = nodes_to_csv n @ [CHR 0x0A] @ edges_to_csv e
        \<and> map fst n = r_new_selected_nodes r
        \<and> map (\<lambda>(src, edge_attr, dst). (src, dst)) e = [data_edge_index ex_graph ! 1]
        \<and> data_edge_index ex_graph ! 1 = (1, 2)
        \<and> data_edge_index (r_data r) = [(0, 1)]"
    using r rn re n' e' rd ids ends' col ri
    by (intro exI [of _ r] exI [of _ n] exI [of _ e] conjI)
  then show ?thesis
    using ex_well_formed ex_tables_match ex_nonempty checked_solver_in_range [of "[1, 3]" "[1]"]
      ex_is_topk
    by simp
qed

subsection \<open>The reduced instance and the solver's tree\<close>

lemma concat_pairs_nth:
  "\<forall>x \<in> set xs. length (f x) = 2 \<Longrightarrow> k < 2 * length xs \<Longrightarrow>
     concat (map f xs) ! k = f (xs ! (k div 2)) ! (k mod 2)"
proof (induction xs arbitrary: k)
  case Nil
  then show ?case by simp
next
  case (Cons x xs)
  show ?case
  proof (cases "k < 2")
    case True
    then have "k div 2 = 0" "k mod 2 = k" by simp_all
    then show ?thesis using Cons.prems True by (simp add: nth_append)
  next
    case False
    then have k: "k = (k - 2) + 2" by simp
    have "concat (map f (x # xs)) ! k = concat (map f xs) ! (k - 2)"
      using Cons.prems False by (simp add: nth_append)
    also have "\<dots> = f (xs ! ((k - 2) div 2)) ! ((k - 2) mod 2)"
      using Cons.prems False by (intro Cons.IH) auto
    also have "(k - 2) div 2 = k div 2 - 1" using False
      by (metis k add_diff_cancel_right' div_add_self2 zero_neq_numeral)
    also have "(k - 2) mod 2 = k mod 2" using False
      by (metis k mod_add_self2)
    finally have "concat (map f (x # xs)) ! k = f (xs ! (k div 2 - 1)) ! (k mod 2)" .
    moreover have "0 < k div 2" using False by (simp add: div_greater_zero_iff)
    ultimately show ?thesis by (simp add: nth_Cons')
  qed
qed

lemma reduction_of_real_edge:
  assumes "e < length (edge_list (reduction_of e_idx ps n c))"
  shows "(edge_list (reduction_of e_idx ps n c) @ virtual_edges (reduction_of e_idx ps n c)) ! e
           = e_idx ! the (mapping_e (reduction_of e_idx ps n c) e)"
  using assms by (simp add: reduction_of_def Let_def nth_append)

lemma length_virtual_edges:
  "length (virtual_edges (reduction_of e_idx ps n c))
     = 2 * length (promoted_edges ps c (length e_idx))"
proof -
  have "length (concat (map (virtual_pair e_idx n) xs)) = 2 * length xs" for xs :: "(nat \<times> nat) list"
    by (induction xs) (auto simp: virtual_pair_def)
  then show ?thesis by (simp add: reduction_of_def Let_def)
qed

lemma reduction_of_virtual_edge:
  assumes lo: "length (edge_list (reduction_of e_idx ps n c)) \<le> e"
    and hi: "e < length (edge_list (reduction_of e_idx ps n c)
                  @ virtual_edges (reduction_of e_idx ps n c))"
  shows "\<exists>j < length (promoted_edges ps c (length e_idx)).
           mapping_n (reduction_of e_idx ps n c) (n + j)
             = Some (promoted_edges ps c (length e_idx) ! j)
         \<and> ((edge_list (reduction_of e_idx ps n c) @ virtual_edges (reduction_of e_idx ps n c)) ! e
               = (fst (e_idx ! (promoted_edges ps c (length e_idx) ! j)), n + j)
            \<or> (edge_list (reduction_of e_idx ps n c) @ virtual_edges (reduction_of e_idx ps n c)) ! e
               = (n + j, snd (e_idx ! (promoted_edges ps c (length e_idx) ! j))))"
proof -
  define red where "red = reduction_of e_idx ps n c"
  define prom where "prom = promoted_edges ps c (length e_idx)"
  define k where "k = e - length (edge_list red)"
  have k: "k < 2 * length prom"
    using lo hi length_virtual_edges [of e_idx ps n c]
    by (simp add: k_def red_def prom_def)
  then have j: "k div 2 < length prom" by simp
  have ve: "virtual_edges red = concat (map (virtual_pair e_idx n) (enumerate 0 prom))"
    by (simp add: red_def prom_def reduction_of_def Let_def)
  have "(edge_list red @ virtual_edges red) ! e = virtual_edges red ! k"
    using lo by (simp add: nth_append k_def red_def)
  also have "\<dots> = virtual_pair e_idx n (enumerate 0 prom ! (k div 2)) ! (k mod 2)"
    unfolding ve using k
    by (intro concat_pairs_nth) (auto simp: virtual_pair_def)
  also have "enumerate 0 prom ! (k div 2) = (k div 2, prom ! (k div 2))"
    using j by (simp add: nth_enumerate_eq)
  finally have nth: "(edge_list red @ virtual_edges red) ! e
      = virtual_pair e_idx n (k div 2, prom ! (k div 2)) ! (k mod 2)" .
  have "k mod 2 = 0 \<or> k mod 2 = 1" by auto
  then have "(edge_list red @ virtual_edges red) ! e = (fst (e_idx ! (prom ! (k div 2))), n + k div 2)
      \<or> (edge_list red @ virtual_edges red) ! e = (n + k div 2, snd (e_idx ! (prom ! (k div 2))))"
    unfolding nth by (auto simp: virtual_pair_def)
  moreover have "mapping_n red (n + k div 2) = Some (prom ! (k div 2))"
    using j by (simp add: red_def prom_def reduction_of_def Let_def)
  ultimately show ?thesis
    using j unfolding red_def prom_def by blast
qed

lemma reduction_of_no_virtual:
  "\<not> 0 < length (virtual_costs (reduction_of e_idx ps n c)) \<Longrightarrow>
     virtual_edges (reduction_of e_idx ps n c) = []"
  by (simp add: reduction_of_def Let_def)

lemma pcst_path_run:
  assumes wf: "well_formed graph textual_nodes textual_edges"
    and ne: "textual_edges \<noteq> []"
    and tk: "0 < topk \<longrightarrow>
      is_topk (map (cos_sim q_emb) (data_x graph)) (min (nat topk) (data_num_nodes graph))
        (topk_indices (map (cos_sim q_emb) (data_x graph)) (min (nat topk) (data_num_nodes graph)))"
  shows "\<exists>e_prizes ps cs.
      length ps = data_num_nodes graph
        + length (virtual_n_prizes (reduction_of (data_edge_index graph) e_prizes
                    (data_num_nodes graph) cost_e))
    \<and> pcst_path cos_sim topk_indices pcst_fast graph q_emb textual_nodes textual_edges
        topk topk_e cost_e
      = reconstruct graph textual_nodes textual_edges
          (reduction_of (data_edge_index graph) e_prizes (data_num_nodes graph) cost_e)
          (fst (pcst_fast
                 (edge_list (reduction_of (data_edge_index graph) e_prizes
                    (data_num_nodes graph) cost_e)
                  @ virtual_edges (reduction_of (data_edge_index graph) e_prizes
                    (data_num_nodes graph) cost_e))
                 ps cs (- 1) 1 ''gw'' 0))
          (snd (pcst_fast
                 (edge_list (reduction_of (data_edge_index graph) e_prizes
                    (data_num_nodes graph) cost_e)
                  @ virtual_edges (reduction_of (data_edge_index graph) e_prizes
                    (data_num_nodes graph) cost_e))
                 ps cs (- 1) 1 ''gw'' 0))"
proof -
  have lens: "length (data_x graph) = data_num_nodes graph"
    "length (data_edge_attr graph) = length (data_edge_index graph)"
    "data_edge_attr graph \<noteq> []"
    using wf ne by (auto simp: well_formed_def)
  obtain n_prizes where np: "node_prizes cos_sim topk_indices q_emb (data_x graph)
      (data_num_nodes graph) topk = Inr n_prizes" "length n_prizes = data_num_nodes graph"
    using node_prizes_returns [where cos_sim = cos_sim and q_emb = q_emb
        and node_feat = "data_x graph" and topk_indices = topk_indices and topk = topk
        and num_nodes = "data_num_nodes graph"] tk lens(1) by blast
  obtain e_prizes where ep: "edge_prizes cos_sim q_emb (data_edge_attr graph)
      (length (data_edge_index graph)) topk_e = Inr e_prizes"
      "length e_prizes = length (data_edge_index graph)"
    using edge_prizes_returns [of topk_e "data_edge_attr graph" cos_sim q_emb
        "length (data_edge_index graph)"] lens by auto
  define red where "red = reduction_of (data_edge_index graph) e_prizes (data_num_nodes graph) cost_e"
  have rd: "virtual_node_reduction (data_edge_index graph) e_prizes (data_num_nodes graph) cost_e
      = Inr red"
    unfolding virtual_node_reduction_def red_def
    using ep(2) by (intro reduce_loop_characterised) simp
  define costs0 where "costs0 = (if 0 < length (virtual_costs red)
      then cost_list red @ virtual_costs red else cost_list red)"
  have edges0: "(if 0 < length (virtual_costs red)
      then edge_list red @ virtual_edges red else edge_list red)
      = edge_list red @ virtual_edges red"
    using reduction_of_no_virtual [of "data_edge_index graph" e_prizes "data_num_nodes graph" cost_e]
    by (simp add: red_def)
  have "pcst_path cos_sim topk_indices pcst_fast graph q_emb textual_nodes
      textual_edges topk topk_e cost_e
      = reconstruct graph textual_nodes textual_edges red
          (fst (pcst_fast (edge_list red @ virtual_edges red)
                 (n_prizes @ virtual_n_prizes red) costs0 (- 1) 1 ''gw'' 0))
          (snd (pcst_fast (edge_list red @ virtual_edges red)
                 (n_prizes @ virtual_n_prizes red) costs0 (- 1) 1 ''gw'' 0))"
    by (simp only: pcst_path_def Let_def np(1) ep(1) rd sum.case case_prod_unfold
        edges0 costs0_def)
  moreover have "length (n_prizes @ virtual_n_prizes red)
      = data_num_nodes graph + length (virtual_n_prizes red)"
    using np(2) by simp
  ultimately show ?thesis unfolding red_def by blast
qed

text \<open>
  In a tree the solver returns, every selected real node is an endpoint of a final edge
  unless the final edges have no endpoint outside the selected nodes.
\<close>

lemma tree_selected_are_endpoints:
  assumes rec: "reconstruct graph textual_nodes textual_edges red vertices edges = Inr r"
    and red: "red = reduction_of (data_edge_index graph) e_prizes (data_num_nodes graph) c"
    and closed: "\<forall>e \<in> set edges. e < length (edge_list red @ virtual_edges red)
        \<and> fst ((edge_list red @ virtual_edges red) ! e) \<in> set vertices
        \<and> snd ((edge_list red @ virtual_edges red) ! e) \<in> set vertices"
    and inc: "1 < length vertices \<longrightarrow>
        (\<forall>v \<in> set vertices. \<exists>e \<in> set edges.
            v = fst ((edge_list red @ virtual_edges red) ! e)
          \<or> v = snd ((edge_list red @ virtual_edges red) ! e))"
    and more: "\<not> node_ids (map (\<lambda>i. data_edge_index graph ! i) (r_new_selected_edges r))
                 \<subseteq> set (r_selected_nodes r)"
  shows "set (r_selected_nodes r)
           \<subseteq> node_ids (map (\<lambda>i. data_edge_index graph ! i) (r_new_selected_edges r))"
proof -
  define inst where "inst = edge_list red @ virtual_edges red"
  define N where "N = data_num_nodes graph"
  define ends where "ends = node_ids (map (\<lambda>i. data_edge_index graph ! i) (r_new_selected_edges r))"
  note d = reconstruct_InrD [OF rec]
  have S: "r_selected_nodes r = filter (\<lambda>v. v < N) vertices" using d(1) by (simp add: N_def)
  have sel: "r_new_selected_edges r =
           map (\<lambda>e. the (mapping_e red e)) (filter (\<lambda>e. e < length (edge_list red)) edges)
           @ map (\<lambda>v. the (mapping_n red v)) (filter (\<lambda>v. N \<le> v) vertices)"
    using d(2) by (simp add: N_def)
  have endsI: "fst (data_edge_index graph ! i) \<in> ends \<and> snd (data_edge_index graph ! i) \<in> ends"
    if "i \<in> set (r_new_selected_edges r)" for i
    using that unfolding ends_def node_ids_def by (auto simp: image_iff intro!: bexI [of _ i])
  have real: "fst (inst ! e) \<in> ends \<and> snd (inst ! e) \<in> ends"
    if e: "e \<in> set edges" "e < length (edge_list red)" for e
  proof -
    have "inst ! e = data_edge_index graph ! the (mapping_e red e)"
      using e(2) reduction_of_real_edge [of e "data_edge_index graph" e_prizes N c]
      by (simp add: inst_def red N_def)
    moreover have "the (mapping_e red e) \<in> set (r_new_selected_edges r)"
      using e by (simp add: sel)
    ultimately show ?thesis using endsI by simp
  qed
  show ?thesis
  proof (cases "1 < length vertices")
    case True
    have "v \<in> ends" if v: "v \<in> set vertices" "v < N" for v
    proof -
      from inc True v(1) obtain e where e: "e \<in> set edges"
        "v = fst (inst ! e) \<or> v = snd (inst ! e)"
        unfolding inst_def by blast
      show ?thesis
      proof (cases "e < length (edge_list red)")
        case True
        then show ?thesis using real [OF e(1)] e(2) by auto
      next
        case False
        have hi: "e < length inst" and inv: "fst (inst ! e) \<in> set vertices"
          "snd (inst ! e) \<in> set vertices"
          using closed e(1) by (auto simp: inst_def)
        from reduction_of_virtual_edge [of "data_edge_index graph" e_prizes N c e]
          False hi
        obtain j where j: "mapping_n red (N + j)
              = Some (promoted_edges e_prizes c (length (data_edge_index graph)) ! j)"
          "inst ! e = (fst (data_edge_index graph
                ! (promoted_edges e_prizes c (length (data_edge_index graph)) ! j)), N + j)
           \<or> inst ! e = (N + j, snd (data_edge_index graph
                ! (promoted_edges e_prizes c (length (data_edge_index graph)) ! j)))"
          unfolding inst_def red N_def by auto
        define i where "i = promoted_edges e_prizes c (length (data_edge_index graph)) ! j"
        have "N + j \<in> set vertices" using j(2) inv by auto
        then have "the (mapping_n red (N + j)) \<in> set (r_new_selected_edges r)"
          by (simp add: sel)
        then have "i \<in> set (r_new_selected_edges r)" using j(1) by (simp add: i_def)
        then have "fst (data_edge_index graph ! i) \<in> ends" "snd (data_edge_index graph ! i) \<in> ends"
          using endsI by auto
        moreover have "v = fst (data_edge_index graph ! i) \<or> v = snd (data_edge_index graph ! i)"
          using e(2) j(2) v(2) unfolding i_def by auto
        ultimately show ?thesis by auto
      qed
    qed
    then show ?thesis unfolding ends_def [symmetric] by (auto simp: S)
  next
    case False
    show ?thesis
    proof (cases "r_selected_nodes r = []")
      case True
      then show ?thesis by simp
    next
      case nonempty: False
      then obtain v where v: "v \<in> set vertices" "v < N" by (auto simp: S filter_empty_conv)
      have "length vertices \<le> 1" using False by simp
      then have vs: "vertices = [v]" using v(1)
        by (cases vertices) auto
      have novirt: "filter (\<lambda>v. N \<le> v) vertices = []" using vs v(2) by simp
      have "ends \<subseteq> set (r_selected_nodes r)"
      proof
        fix a assume "a \<in> ends"
        then obtain i where i: "i \<in> set (r_new_selected_edges r)"
          "a = fst (data_edge_index graph ! i) \<or> a = snd (data_edge_index graph ! i)"
          unfolding ends_def node_ids_def by auto
        then obtain e where e: "e \<in> set edges" "e < length (edge_list red)"
          "i = the (mapping_e red e)"
          by (auto simp: sel novirt)
        have "inst ! e = data_edge_index graph ! i"
          using e(2,3) reduction_of_real_edge [of e "data_edge_index graph" e_prizes N c]
          by (simp add: inst_def red N_def)
        then have "a \<in> set vertices" using closed e(1) i(2) by (auto simp: inst_def)
        then show "a \<in> set (r_selected_nodes r)" using vs v(2) by (simp add: S)
      qed
      then show ?thesis using more by (simp add: ends_def)
    qed
  qed
qed

subsection \<open>C10: the \<open>num_nodes\<close> attribute of the result\<close>

text \<open>
  C10. The returned \<open>num_nodes\<close> is \<open>len(selected_nodes)\<close>, the number of vertices the solver
  returned whose id is below the \<open>num_nodes\<close> of the input, while \<open>x\<close> has one row per final
  node. The solver returns a tree of the reduced instance, so when some endpoint of a
  final edge is not among the selected nodes, \<open>num_nodes\<close> is smaller than the number of
  rows of \<open>x\<close> and smaller than the number of compact ids that occur in \<open>edge_index\<close>.
\<close>

theorem C10_num_nodes:
  assumes "well_formed graph textual_nodes textual_edges"
    and "textual_nodes \<noteq> []" and "textual_edges \<noteq> []"
    and "solver_in_range pcst_fast" and "solver_tree pcst_fast"
    and "0 < topk \<longrightarrow>
      is_topk (map (cos_sim q_emb) (data_x graph)) (min (nat topk) (data_num_nodes graph))
        (topk_indices (map (cos_sim q_emb) (data_x graph)) (min (nat topk) (data_num_nodes graph)))"
  shows "\<exists>r vertices. pcst_path cos_sim topk_indices pcst_fast graph q_emb textual_nodes
             textual_edges topk topk_e cost_e = Inr r
    \<and> retrieval_via_pcst cos_sim topk_indices pcst_fast graph q_emb textual_nodes
          textual_edges topk topk_e cost_e = Inr (r_data r, r_desc r)
    \<and> (\<exists>es ps cs. vertices = fst (pcst_fast es ps cs (- 1) 1 ''gw'' 0))
    \<and> r_selected_nodes r = filter (\<lambda>v. v < data_num_nodes graph) vertices
    \<and> data_num_nodes (r_data r) = length (filter (\<lambda>v. v < data_num_nodes graph) vertices)
    \<and> length (data_x (r_data r)) = length (r_new_selected_nodes r)
    \<and> (\<not> node_ids (map (\<lambda>i. data_edge_index graph ! i) (r_new_selected_edges r))
            \<subseteq> set (r_selected_nodes r) \<longrightarrow>
          data_num_nodes (r_data r) < length (data_x (r_data r))
        \<and> data_num_nodes (r_data r) < card (node_ids (data_edge_index (r_data r))))"
proof -
  obtain r where r: "pcst_path cos_sim topk_indices pcst_fast graph q_emb textual_nodes
      textual_edges topk topk_e cost_e = Inr r"
    using pcst_path_returns [where cos_sim = cos_sim and q_emb = q_emb
        and topk_indices = topk_indices and topk = topk and graph = graph,
        OF assms(1,3,4,6)] by blast
  from pcst_path_run [where cos_sim = cos_sim and q_emb = q_emb
        and topk_indices = topk_indices and topk = topk and graph = graph
        and pcst_fast = pcst_fast and topk_e = topk_e and cost_e = cost_e,
        OF assms(1,3,6)]
  obtain e_prizes ps cs where run: "pcst_path cos_sim topk_indices pcst_fast graph q_emb
        textual_nodes textual_edges topk topk_e cost_e
      = reconstruct graph textual_nodes textual_edges
          (reduction_of (data_edge_index graph) e_prizes (data_num_nodes graph) cost_e)
          (fst (pcst_fast
                 (edge_list (reduction_of (data_edge_index graph) e_prizes
                    (data_num_nodes graph) cost_e)
                  @ virtual_edges (reduction_of (data_edge_index graph) e_prizes
                    (data_num_nodes graph) cost_e))
                 ps cs (- 1) 1 ''gw'' 0))
          (snd (pcst_fast
                 (edge_list (reduction_of (data_edge_index graph) e_prizes
                    (data_num_nodes graph) cost_e)
                  @ virtual_edges (reduction_of (data_edge_index graph) e_prizes
                    (data_num_nodes graph) cost_e))
                 ps cs (- 1) 1 ''gw'' 0))"
    by blast
  define red where "red = reduction_of (data_edge_index graph) e_prizes (data_num_nodes graph) cost_e"
  define inst where "inst = edge_list red @ virtual_edges red"
  define vertices where "vertices = fst (pcst_fast inst ps cs (- 1) 1 ''gw'' 0)"
  define edges where "edges = snd (pcst_fast inst ps cs (- 1) 1 ''gw'' 0)"
  have rec: "reconstruct graph textual_nodes textual_edges red vertices edges = Inr r"
    using r run by (simp add: red_def inst_def vertices_def edges_def)
  note d = reconstruct_InrD [OF rec]
  have tree: "distinct vertices"
    "\<forall>e \<in> set edges. e < length inst \<and> fst (inst ! e) \<in> set vertices
        \<and> snd (inst ! e) \<in> set vertices"
    "1 < length vertices \<longrightarrow>
        (\<forall>v \<in> set vertices. \<exists>e \<in> set edges. v = fst (inst ! e) \<or> v = snd (inst ! e))"
    using assms(5) unfolding solver_tree_def Let_def vertices_def edges_def
      list_all_iff list_ex_iff
    by blast+
  define ns where "ns = r_new_selected_nodes r"
  define sel where "sel = r_new_selected_edges r"
  define S where "S = r_selected_nodes r"
  define ends where "ends = node_ids (map (\<lambda>i. data_edge_index graph ! i) sel)"
  define idx where "idx = (\<lambda>v. the (map_of (zip ns [0..<length ns]) v))"
  have S: "S = filter (\<lambda>v. v < data_num_nodes graph) vertices"
    using d(1) by (simp add: S_def)
  have dS: "distinct S" using tree(1) by (simp add: S)
  have nn: "data_num_nodes (r_data r) = length S" using d(7) by (simp add: S_def)
  have lx: "length (data_x (r_data r)) = length ns" using d(5) by (simp add: ns_def)
  have dist: "distinct ns" using d(4) by (simp add: ns_def distinct_unique)
  have setns: "set ns = set S \<union> ends"
    using d(4) by (auto simp: ns_def sel_def ends_def S_def node_ids_def set_unique)
  have fin: "finite ends" by (simp add: ends_def node_ids_def)
  have out: "data_edge_index (r_data r)
      = map (\<lambda>i. (idx (fst (data_edge_index graph ! i)), idx (snd (data_edge_index graph ! i)))) sel"
    using d(9) by (simp add: ns_def sel_def idx_def)
  have ids: "node_ids (data_edge_index (r_data r)) = idx ` ends"
    unfolding out ends_def by (rule node_ids_map)
  have "inj_on idx ends"
    unfolding idx_def using compact_inj_on [of ns] setns by (auto intro: inj_on_subset)
  then have cardids: "card (node_ids (data_edge_index (r_data r))) = card ends"
    by (simp add: ids card_image)
  have more: "length S < length ns" if "\<not> ends \<subseteq> set S"
  proof -
    have "set S \<subset> set ns" using that setns by auto
    then have "card (set S) < card (set ns)" by (intro psubset_card_mono) simp_all
    then show ?thesis using dS dist by (simp add: distinct_card)
  qed
  have more_ids: "length S < card ends" if out: "\<not> ends \<subseteq> set S"
  proof -
    have "set S \<subseteq> ends"
      using tree_selected_are_endpoints [OF rec red_def] tree(2,3) out
      unfolding inst_def S_def ends_def sel_def by blast
    then have "set S \<subset> ends" using out by auto
    then have "card (set S) < card ends" using fin by (intro psubset_card_mono)
    then show ?thesis using dS by (simp add: distinct_card)
  qed
  have "(\<exists>es ps cs. vertices = fst (pcst_fast es ps cs (- 1) 1 ''gw'' 0))"
    unfolding vertices_def by blast
  then show ?thesis
    using r retrieval_of_pcst_path [OF assms(2,3) r] S nn lx more more_ids cardids
    unfolding ns_def sel_def ends_def S_def
    by (intro exI [of _ r] exI [of _ vertices] conjI impI) simp_all
qed

theorem C10_num_nodes_witness:
  "well_formed ex_graph ex_nodes ex_edges \<and> ex_nodes \<noteq> [] \<and> ex_edges \<noteq> []
   \<and> solver_in_range (checked_solver [1, 3] [1]) \<and> solver_tree (checked_solver [1, 3] [1])
   \<and> (0::int) < 1
   \<and> is_topk (map (dot [1, 0]) (data_x ex_graph)) (min (nat 1) (data_num_nodes ex_graph)) [1]
   \<and> (\<exists>r. pcst_path dot (fixed_topk [1]) (checked_solver [1, 3] [1]) ex_graph [1, 0]
             ex_nodes ex_edges 1 1 (1 / 2) = Inr r
        \<and> r_selected_nodes r = [1] \<and> r_new_selected_edges r = [1]
        \<and> node_ids (map (\<lambda>i. data_edge_index ex_graph ! i) (r_new_selected_edges r)) = {1, 2}
        \<and> data_num_nodes (r_data r) = 1 \<and> length (data_x (r_data r)) = 2
        \<and> card (node_ids (data_edge_index (r_data r))) = 2)"
proof -
  from C10_num_nodes [where cos_sim = dot and topk_indices = "fixed_topk [1]"
        and pcst_fast = "checked_solver [1, 3] [1]" and graph = ex_graph and q_emb = "[1, 0]"
        and textual_nodes = ex_nodes and textual_edges = ex_edges and topk = 1 and topk_e = 1
        and cost_e = "1 / 2", OF ex_well_formed ex_nonempty checked_solver_in_range
        checked_solver_tree ex_topk_hyp]
  obtain r where r: "pcst_path dot (fixed_topk [1]) (checked_solver [1, 3] [1]) ex_graph [1, 0]
             ex_nodes ex_edges 1 1 (1 / 2) = Inr r"
    and lt: "\<not> node_ids (map (\<lambda>i. data_edge_index ex_graph ! i) (r_new_selected_edges r))
            \<subseteq> set (r_selected_nodes r) \<longrightarrow>
          data_num_nodes (r_data r) < length (data_x (r_data r))
        \<and> data_num_nodes (r_data r) < card (node_ids (data_edge_index (r_data r)))"
    by auto
  have s: "r_selected_nodes r = [1]" and e: "r_new_selected_edges r = [1]"
    and n: "data_num_nodes (r_data r) = 1" and x: "length (data_x (r_data r)) = 2"
    and o: "data_edge_index (r_data r) = [(0, 1)]"
    using r unfolding ex_run_virtual by auto
  have ends: "node_ids (map (\<lambda>i. data_edge_index ex_graph ! i) (r_new_selected_edges r)) = {1, 2}"
    unfolding e by (auto simp: node_ids_def ex_graph_def)
  have "card (node_ids [(0, Suc 0)]) = 2"
    by (simp add: node_ids_def)
  then have "card (node_ids (data_edge_index (r_data r))) = 2" unfolding o by simp
  then have "\<exists>r. pcst_path dot (fixed_topk [1]) (checked_solver [1, 3] [1]) ex_graph [1, 0]
             ex_nodes ex_edges 1 1 (1 / 2) = Inr r
        \<and> r_selected_nodes r = [1] \<and> r_new_selected_edges r = [1]
        \<and> node_ids (map (\<lambda>i. data_edge_index ex_graph ! i) (r_new_selected_edges r)) = {1, 2}
        \<and> data_num_nodes (r_data r) = 1 \<and> length (data_x (r_data r)) = 2
        \<and> card (node_ids (data_edge_index (r_data r))) = 2"
    using r s e ends n x by (intro exI [of _ r]) simp
  then show ?thesis
    using ex_well_formed ex_nonempty checked_solver_in_range [of "[1, 3]" "[1]"]
      checked_solver_tree [of "[1, 3]" "[1]"] ex_is_topk
    by simp
qed

subsection \<open>C8: embedding failures are caught\<close>

lemma concat_batches: "concat (batches xs) = xs"
proof (induction xs rule: batches.induct)
  case (1 xs)
  show ?case
  proof (cases "xs = []")
    case True
    then show ?thesis by (simp add: batches.simps)
  next
    case False
    then have "concat (batches xs) = take 256 xs @ concat (batches (drop 256 xs))"
      by (subst batches.simps) simp
    then show ?thesis using 1 False by simp
  qed
qed

lemma batches_nonempty: "xs \<noteq> [] \<Longrightarrow> batches xs \<noteq> []"
  by (subst batches.simps) simp

lemma embed_batches_rowwise:
  assumes "\<forall>batch \<in> set bs. model batch = Inr \<lparr>t_shape = (length batch, D), t_rows = map f batch\<rparr>"
  shows "embed_batches model bs acc
     = Inr (acc @ map (\<lambda>batch. \<lparr>t_shape = (length batch, D), t_rows = map f batch\<rparr>) bs)"
  using assms by (induction bs arbitrary: acc) simp_all

lemma torch_cat_rowwise:
  assumes "bs \<noteq> []"
  shows "torch_cat (map (\<lambda>batch. \<lparr>t_shape = (length batch, D), t_rows = map f batch\<rparr>) bs)
     = Inr \<lparr>t_shape = (length (concat bs), D), t_rows = map f (concat bs)\<rparr>"
proof -
  obtain b rest where bs: "bs = b # rest" using assms by (cases bs) auto
  show ?thesis
    unfolding bs
    by (simp add: torch_cat_def list_all_iff length_concat map_concat comp_def)
qed

text \<open>
  C8. Whenever the body of the \<open>try\<close> block raises (the tokenizer, the reading of the
  items, the forward pass on some batch or the concatenation), the function returns the
  tensor of shape \<open>(0, 1024)\<close> with no row instead of the exception; when the block
  returns, the function returns its value. When the tokenizer gives one row per text and
  the model embeds every batch row by row with width \<open>D\<close>, the function returns the
  tensor of shape \<open>(number of texts, D)\<close> whose row \<open>i\<close> is the embedding of text \<open>i\<close>.
\<close>

theorem C8_embedding_failure_caught:
  "(try_embedding model tokenizer texts = Inl err \<longrightarrow>
      sbert_text2embedding model tokenizer texts = zeros (0, 1024)
      \<and> t_shape (sbert_text2embedding model tokenizer texts) = (0, 1024)
      \<and> t_rows (sbert_text2embedding model tokenizer texts) = [])
   \<and> (try_embedding model tokenizer texts = Inr all_embeddings \<longrightarrow>
      sbert_text2embedding model tokenizer texts = all_embeddings)
   \<and> (texts \<noteq> [] \<and> tokenizer texts = Inr enc \<and> length (input_ids enc) = length texts
        \<and> length (attention_mask enc) = length texts
        \<and> (\<forall>batch. model batch = Inr \<lparr>t_shape = (length batch, D), t_rows = map f batch\<rparr>) \<longrightarrow>
      sbert_text2embedding model tokenizer texts
        = \<lparr>t_shape = (length texts, D),
            t_rows = map (\<lambda>i. f (input_ids enc ! i, attention_mask enc ! i)) [0..<length texts]\<rparr>)"
proof -
  have caught: "sbert_text2embedding model tokenizer texts = zeros (0, 1024)
      \<and> t_shape (sbert_text2embedding model tokenizer texts) = (0, 1024)
      \<and> t_rows (sbert_text2embedding model tokenizer texts) = []"
    if "try_embedding model tokenizer texts = Inl err"
    using that by (simp add: sbert_text2embedding_def zeros_def)
  have ok: "sbert_text2embedding model tokenizer texts
        = \<lparr>t_shape = (length texts, D),
            t_rows = map (\<lambda>i. f (input_ids enc ! i, attention_mask enc ! i)) [0..<length texts]\<rparr>"
    if a: "texts \<noteq> [] \<and> tokenizer texts = Inr enc \<and> length (input_ids enc) = length texts
        \<and> length (attention_mask enc) = length texts
        \<and> (\<forall>batch. model batch = Inr \<lparr>t_shape = (length batch, D), t_rows = map f batch\<rparr>)"
  proof -
    define items where "items = map (\<lambda>index. (input_ids enc ! index, attention_mask enc ! index))
                  [0..<length texts]"
    have ds: "dataset_items enc = Inr items" using a by (simp add: dataset_items_def items_def)
    have ne: "items \<noteq> []" using a by (simp add: items_def)
    have eb: "embed_batches model (batches items) []
        = Inr (map (\<lambda>batch. \<lparr>t_shape = (length batch, D), t_rows = map f batch\<rparr>) (batches items))"
      using embed_batches_rowwise [of "batches items" model D f "[]"] a by simp
    have tc: "torch_cat (map (\<lambda>batch. \<lparr>t_shape = (length batch, D), t_rows = map f batch\<rparr>) (batches items))
        = Inr \<lparr>t_shape = (length items, D), t_rows = map f items\<rparr>"
      using torch_cat_rowwise [OF batches_nonempty [OF ne], of D f] by (simp add: concat_batches)
    have "try_embedding model tokenizer texts = Inr \<lparr>t_shape = (length items, D), t_rows = map f items\<rparr>"
      using a by (simp add: try_embedding_def ds eb tc)
    then show ?thesis
      by (simp add: sbert_text2embedding_def items_def comp_def)
  qed
  have returned: "sbert_text2embedding model tokenizer texts = all_embeddings"
    if "try_embedding model tokenizer texts = Inr all_embeddings"
    using that by (simp add: sbert_text2embedding_def)
  show ?thesis using caught ok returned by blast
qed

theorem C8_embedding_failure_caught_witness:
  "try_embedding ex_model failing_tokenizer [''ab'', ''c''] = Inl RuntimeError
   \<and> t_shape (sbert_text2embedding ex_model failing_tokenizer [''ab'', ''c'']) = (0, 1024)
   \<and> t_rows (sbert_text2embedding ex_model failing_tokenizer [''ab'', ''c'']) = []
   \<and> [''ab'', ''c''] \<noteq> []
   \<and> ex_tokenizer [''ab'', ''c'']
       = Inr \<lparr>input_ids = [[2], [1]], attention_mask = [[1], [1]]\<rparr>
   \<and> (\<forall>batch. ex_model batch
         = Inr \<lparr>t_shape = (length batch, 1), t_rows = map ex_embed_row batch\<rparr>)
   \<and> try_embedding ex_model ex_tokenizer [''ab'', ''c'']
       = Inr \<lparr>t_shape = (2, 1), t_rows = [[2], [1]]\<rparr>
   \<and> sbert_text2embedding ex_model ex_tokenizer [''ab'', ''c'']
       = \<lparr>t_shape = (2, 1), t_rows = [[2], [1]]\<rparr>"
proof -
  have f: "try_embedding ex_model failing_tokenizer [''ab'', ''c''] = Inl RuntimeError"
    by (simp add: try_embedding_def failing_tokenizer_def)
  have t: "ex_tokenizer [''ab'', ''c'']
       = Inr \<lparr>input_ids = [[2], [1]], attention_mask = [[1], [1]]\<rparr>"
    by (simp add: ex_tokenizer_def)
  have m: "\<forall>batch. ex_model batch
         = Inr \<lparr>t_shape = (length batch, 1), t_rows = map ex_embed_row batch\<rparr>"
    by (simp add: ex_model_def)
  have up: "[0..<2] = [0, 1]" by (simp add: upt_rec)
  have s: "sbert_text2embedding ex_model ex_tokenizer [''ab'', ''c'']
       = \<lparr>t_shape = (2, 1), t_rows = [[2], [1]]\<rparr>"
    using C8_embedding_failure_caught [where model = ex_model and tokenizer = ex_tokenizer
        and texts = "[''ab'', ''c'']" and D = 1 and f = ex_embed_row
        and enc = "\<lparr>input_ids = [[2], [1]], attention_mask = [[1], [1]]\<rparr>"] t m
    by (simp add: ex_embed_row_def up)
  then have "try_embedding ex_model ex_tokenizer [''ab'', ''c'']
       = Inr \<lparr>t_shape = (2, 1), t_rows = [[2], [1]]\<rparr>"
    by (simp add: sbert_text2embedding_def zeros_def split: sum.splits)
  then show ?thesis
    using C8_embedding_failure_caught [where model = ex_model and tokenizer = failing_tokenizer
        and texts = "[''ab'', ''c'']" and err = RuntimeError] f t m s
    by (simp add: zeros_def)
qed

end
